theory Spec2Isabelle
  imports Main "HOL-Library.Sublist"
begin

section \<open>Regular expressions of schema\_updates.py\<close>

text \<open>
  The three patterns of \<^verbatim>\<open>add_organization_id_to_model\<close> are sequences of literals,
  character classes under a lazy star (\<^verbatim>\<open>[^}]*?\<close>), a greedy star or plus
  (\<^verbatim>\<open>\s+\<close>, \<^verbatim>\<open>[a-zA-Z0-9_]*\<close>) and one group boundary \<^verbatim>\<open>)(\<close>.
  A document is a \<^typ>\<open>string\<close>: characters are the 8-bit characters of HOL.
\<close>

datatype atom =
    Lit char
  | One "char \<Rightarrow> bool"
  | Lazy "char \<Rightarrow> bool"
  | Greedy "char \<Rightarrow> bool"
  | Mark

text \<open>\<^verbatim>\<open>X+\<close> is one \<^verbatim>\<open>X\<close> followed by a greedy \<^verbatim>\<open>X*\<close>.\<close>

definition plus_of :: "(char \<Rightarrow> bool) \<Rightarrow> atom list" where
  "plus_of P = [One P, Greedy P]"

definition lits :: "string \<Rightarrow> atom list" where
  "lits s = map Lit s"

text \<open>
  The backtracking matcher of Python's \<^verbatim>\<open>re\<close>, anchored at the head of the string.
  The result is the text of group 1 (up to \<^const>\<open>Mark\<close>), the text of group 2 and
  the unconsumed rest. A lazy star first tries to go on without consuming, a greedy one
  first consumes.
\<close>

fun bt :: "atom list \<Rightarrow> string \<Rightarrow> (string \<times> string \<times> string) option" where
  "bt [] s = Some ([], [], s)"
| "bt (Mark # p) s =
     (case bt p s of None \<Rightarrow> None | Some (a, b, r) \<Rightarrow> Some ([], a @ b, r))"
| "bt (Lit c # p) [] = None"
| "bt (Lit c # p) (x # s) =
     (if x = c then
        (case bt p s of None \<Rightarrow> None | Some (a, b, r) \<Rightarrow> Some (x # a, b, r))
      else None)"
| "bt (One P # p) [] = None"
| "bt (One P # p) (x # s) =
     (if P x then
        (case bt p s of None \<Rightarrow> None | Some (a, b, r) \<Rightarrow> Some (x # a, b, r))
      else None)"
| "bt (Lazy P # p) s =
     (case bt p s of
        Some res \<Rightarrow> Some res
      | None \<Rightarrow>
          (case s of
             [] \<Rightarrow> None
           | x # s' \<Rightarrow>
               if P x then
                 (case bt (Lazy P # p) s' of
                    None \<Rightarrow> None
                  | Some (a, b, r) \<Rightarrow> Some (x # a, b, r))
               else None))"
| "bt (Greedy P # p) [] = bt p []"
| "bt (Greedy P # p) (x # s) =
     (if P x then
        (case bt (Greedy P # p) s of
           Some (a, b, r) \<Rightarrow> Some (x # a, b, r)
         | None \<Rightarrow> bt p (x # s))
      else bt p (x # s))"

text \<open>
  \<^verbatim>\<open>re.sub(pattern, r'\1' + ins + r'\2', s)\<close>: the leftmost match is replaced by its
  two groups with \<open>ins\<close> between them and the scan goes on behind the match.
  Every pattern of the program starts with the literal \<^verbatim>\<open>model\<close>, so a match is
  never empty; the guard on the lengths is what makes the scan total.
\<close>

function sub :: "atom list \<Rightarrow> string \<Rightarrow> string \<Rightarrow> string" where
  "sub p ins s =
     (case bt p s of
        Some (a, b, r) \<Rightarrow>
          if length r < length s then a @ ins @ b @ sub p ins r
          else (case s of [] \<Rightarrow> ins | x # s' \<Rightarrow> ins @ x # sub p ins s')
      | None \<Rightarrow> (case s of [] \<Rightarrow> [] | x # s' \<Rightarrow> x # sub p ins s'))"
  by pat_completeness auto
termination
  by (relation "measure (\<lambda>(p, ins, s). length s)") auto

declare sub.simps [simp del]

subsection \<open>Character classes\<close>

definition not_brace :: "char \<Rightarrow> bool" where
  "not_brace c = (c \<noteq> CHR ''}'')"

text \<open>\<^verbatim>\<open>\s\<close> of a \<^verbatim>\<open>str\<close> pattern, on the 8-bit characters.\<close>

definition is_space :: "char \<Rightarrow> bool" where
  "is_space c = (c \<in> set [CHR '' '', CHR 0x09, CHR 0x0A, CHR 0x0B, CHR 0x0C, CHR 0x0D,
     CHR 0x1C, CHR 0x1D, CHR 0x1E, CHR 0x1F, CHR 0x85, CHR 0xA0])"

definition is_letter :: "char \<Rightarrow> bool" where
  "is_letter c = (let n = (of_char c :: nat) in (97 \<le> n \<and> n \<le> 122) \<or> (65 \<le> n \<and> n \<le> 90))"

definition is_digit :: "char \<Rightarrow> bool" where
  "is_digit c = (let n = (of_char c :: nat) in 48 \<le> n \<and> n \<le> 57)"

text \<open>\<^verbatim>\<open>[a-zA-Z_]\<close> and \<^verbatim>\<open>[a-zA-Z0-9_]\<close>.\<close>

definition ident_start :: "char \<Rightarrow> bool" where
  "ident_start c = (is_letter c \<or> c = CHR ''_'')"

definition ident_char :: "char \<Rightarrow> bool" where
  "ident_char c = (is_letter c \<or> is_digit c \<or> c = CHR ''_'')"

subsection \<open>The three passes\<close>

text \<open>
  The model name is spliced into the pattern text. For a name made of letters, digits
  and underscores (every name of the driver's list is one) the splice is a literal.
\<close>

definition name_ok :: "string \<Rightarrow> bool" where
  "name_ok X = list_all ident_char X"

definition hdr :: "string \<Rightarrow> string" where
  "hdr X = ''model '' @ X @ '' {''"

definition marker :: string where
  "marker = ''// Relations''"

definition model_pattern :: "string \<Rightarrow> atom list" where
  "model_pattern X =
     lits (hdr X) @ [Lazy not_brace] @ lits ''createdById'' @ plus_of is_space @
     lits ''String'' @ [Lazy not_brace, Mark] @ plus_of is_space @ lits marker"

definition replacement :: string where
  "replacement = CHR 0x0A # ''  organizationId  String?   // Made optional for safe migration''"

definition relation_pattern :: "string \<Rightarrow> atom list" where
  "relation_pattern X =
     lits (hdr X) @ [Lazy not_brace] @ lits marker @ [Lazy not_brace] @
     lits ''createdBy'' @ [Lazy not_brace, Mark] @ plus_of is_space @
     [One ident_start, Greedy ident_char] @ plus_of is_space @ [Lazy not_brace] @
     lits ''[]''"

definition org_relation :: string where
  "org_relation = CHR 0x0A #
     ''  organization    Organization? @relation(fields: [organizationId], references: [id])''"

definition index_pattern :: "string \<Rightarrow> atom list" where
  "index_pattern X = lits (hdr X) @ [Lazy not_brace, Mark, Lit CHR ''}'']"

definition index_replacement :: string where
  "index_replacement = CHR 0x0A # CHR 0x0A # ''  @@index([organizationId])''"

definition field_pass :: "string \<Rightarrow> string \<Rightarrow> string" where
  "field_pass X content = sub (model_pattern X) replacement content"

definition relation_pass :: "string \<Rightarrow> string \<Rightarrow> string" where
  "relation_pass X content = sub (relation_pattern X) org_relation content"

definition index_pass :: "string \<Rightarrow> string \<Rightarrow> string" where
  "index_pass X content = sub (index_pattern X) index_replacement content"

definition add_organization_id_to_model :: "string \<Rightarrow> string \<Rightarrow> string" where
  "add_organization_id_to_model content model_name =
     index_pass model_name (relation_pass model_name (field_pass model_name content))"

subsection \<open>The driver\<close>

definition models_to_update :: "string list" where
  "models_to_update =
     [''Segment'', ''EmailTemplate'', ''SMSCampaign'', ''WhatsAppCampaign'', ''Workflow'',
      ''Task'', ''Journey'', ''AI_ContentAnalysis'', ''AI_CustomerSegment'',
      ''AI_ChatHistory'', ''LeadPulseVisitor'', ''LeadPulseTouchpoint'', ''ConversionEvent'',
      ''ConversionTracking'', ''ConversionFunnel'', ''PredictionModel'', ''ChurnPrediction'',
      ''LifetimeValuePrediction'', ''ContactJourney'']"

text \<open>The loop of \<^verbatim>\<open>main\<close> over the list, on the text in memory.\<close>

definition rewrite_all :: "string \<Rightarrow> string" where
  "rewrite_all content = foldl add_organization_id_to_model content models_to_update"

subsection \<open>A minimal document\<close>

text \<open>
  One block for \<^verbatim>\<open>Task\<close>: two fields, the relations marker, the \<^verbatim>\<open>createdBy\<close>
  relation and one list-typed field; and the text the driver makes of it.
\<close>

definition fixture_fields :: string where
  "fixture_fields = ''model Task {'' @ [CHR 0x0A] @ ''  id String'' @ [CHR 0x0A] @ ''  createdById String''"

definition fixture_marker :: string where
  "fixture_marker = [CHR 0x0A, CHR 0x0A] @ ''  // Relations'' @ [CHR 0x0A] @ ''  createdBy''"

definition fixture_list :: string where
  "fixture_list = '' User @relation(fields: [createdById], references: [id])'' @ [CHR 0x0A] @
     ''  items Item[]'' @ [CHR 0x0A]"

definition fixture :: string where
  "fixture = fixture_fields @ fixture_marker @ fixture_list @ ''}'' @ [CHR 0x0A]"

definition expected :: string where
  "expected = fixture_fields @ replacement @ fixture_marker @ org_relation @ fixture_list @
     index_replacement @ ''}'' @ [CHR 0x0A]"

subsection \<open>The program and its file\<close>

text \<open>
  \<^verbatim>\<open>main\<close> reads the one file, runs the loop in memory and writes the file back. The
  world is the content of that file (\<open>None\<close> when it is missing), whether it can be
  opened for writing, the number of writes so far and the console. A run is a sequence
  of steps, one per statement group of \<^verbatim>\<open>main\<close>; an abort is a run that stops early.
  The content of the file is its text as \<^verbatim>\<open>f.read()\<close> returns it in text mode, with
  the line ends already translated. \<^verbatim>\<open>write_file\<close> replaces the whole content or
  fails before it has written anything: a write that stops half-way is not modelled.
\<close>

datatype error = ReadError | WriteError

datatype message =
    Reading | Processing nat | Adding string | Writing | Complete | NextSteps

record world =
  disk :: "string option"
  writable :: bool
  writes :: nat
  console :: "message list"

definition print :: "message \<Rightarrow> world \<Rightarrow> world" where
  "print m w = w\<lparr>console := console w @ [m]\<rparr>"

definition read_file :: "world \<Rightarrow> error + string" where
  "read_file w = (case disk w of None \<Rightarrow> Inl ReadError | Some c \<Rightarrow> Inr c)"

definition write_file :: "string \<Rightarrow> world \<Rightarrow> error + world" where
  "write_file c w =
     (if writable w then Inr (w\<lparr>disk := Some c, writes := Suc (writes w)\<rparr>)
      else Inl WriteError)"

datatype pc = AtRead | AtLoop "string list" | AtWrite | Finished | Failed error

record state =
  pc :: pc
  buffer :: string
  world :: world

definition init :: "world \<Rightarrow> state" where
  "init w = \<lparr>pc = AtRead, buffer = [], world = w\<rparr>"

fun step :: "state \<Rightarrow> state" where
  "step s =
     (case pc s of
        AtRead \<Rightarrow>
          (let w = print Reading (world s) in
           case read_file w of
             Inl e \<Rightarrow> s\<lparr>pc := Failed e, world := w\<rparr>
           | Inr c \<Rightarrow>
               s\<lparr>pc := AtLoop models_to_update, buffer := c,
                 world := print (Processing (length models_to_update)) w\<rparr>)
      | AtLoop [] \<Rightarrow> s\<lparr>pc := AtWrite, world := print Writing (world s)\<rparr>
      | AtLoop (m # ms) \<Rightarrow>
          s\<lparr>pc := AtLoop ms,
            buffer := add_organization_id_to_model (buffer s) m,
            world := print (Adding m) (world s)\<rparr>
      | AtWrite \<Rightarrow>
          (case write_file (buffer s) (world s) of
             Inl e \<Rightarrow> s\<lparr>pc := Failed e\<rparr>
           | Inr w \<Rightarrow> s\<lparr>pc := Finished, world := print NextSteps (print Complete w)\<rparr>)
      | Finished \<Rightarrow> s
      | Failed e \<Rightarrow> s)"

fun run :: "nat \<Rightarrow> state \<Rightarrow> state" where
  "run 0 s = s"
| "run (Suc k) s = run k (step s)"

definition main_inv :: "world \<Rightarrow> state \<Rightarrow> bool" where
  "main_inv w0 s =
     (case pc s of
        AtRead \<Rightarrow> disk (world s) = disk w0 \<and> writes (world s) = writes w0
      | AtLoop ms \<Rightarrow>
          disk (world s) = disk w0 \<and> writes (world s) = writes w0 \<and>
          (\<exists>c done. disk w0 = Some c \<and> models_to_update = done @ ms \<and>
             buffer s = foldl add_organization_id_to_model c done)
      | AtWrite \<Rightarrow>
          disk (world s) = disk w0 \<and> writes (world s) = writes w0 \<and>
          (\<exists>c. disk w0 = Some c \<and> buffer s = rewrite_all c)
      | Finished \<Rightarrow>
          writes (world s) = Suc (writes w0) \<and>
          (\<exists>c. disk w0 = Some c \<and> disk (world s) = Some (rewrite_all c))
      | Failed e \<Rightarrow> disk (world s) = disk w0 \<and> writes (world s) = writes w0)"

text \<open>A world to run the program in.\<close>

definition world0 :: world where
  "world0 = \<lparr>disk = Some ''model Task {}'', writable = True, writes = 0, console = []\<rparr>"

subsection \<open>The texts of a pattern\<close>

text \<open>
  What a pattern can match, without the order in which the matcher tries: \<open>den p w\<close>
  says that \<open>w\<close> is a text of the pattern \<open>p\<close>. It is the yardstick for the matcher
  and is not part of the program. \<open>atom_nb\<close> says that an atom cannot consume a
  closing brace. The two groups of the field pattern and of the relation pattern are
  named, as the source writes them between parentheses.
\<close>

fun den :: "atom list \<Rightarrow> string \<Rightarrow> bool" where
  "den [] w = (w = [])"
| "den (Mark # p) w = den p w"
| "den (Lit c # p) w = (\<exists>v. w = c # v \<and> den p v)"
| "den (One P # p) w = (\<exists>x v. w = x # v \<and> P x \<and> den p v)"
| "den (Lazy P # p) w = (\<exists>u v. w = u @ v \<and> list_all P u \<and> den p v)"
| "den (Greedy P # p) w = (\<exists>u v. w = u @ v \<and> list_all P u \<and> den p v)"

fun atom_nb :: "atom \<Rightarrow> bool" where
  "atom_nb (Lit c) = (c \<noteq> CHR ''}'')"
| "atom_nb (One P) = (\<not> P CHR ''}'')"
| "atom_nb (Lazy P) = (\<not> P CHR ''}'')"
| "atom_nb (Greedy P) = (\<not> P CHR ''}'')"
| "atom_nb Mark = True"

definition model_group1 :: "string \<Rightarrow> atom list" where
  "model_group1 X =
     lits (hdr X) @ [Lazy not_brace] @ lits ''createdById'' @ plus_of is_space @
     lits ''String'' @ [Lazy not_brace]"

definition model_group2 :: "atom list" where
  "model_group2 = plus_of is_space @ lits marker"

definition relation_group1 :: "string \<Rightarrow> atom list" where
  "relation_group1 X =
     lits (hdr X) @ [Lazy not_brace] @ lits marker @ [Lazy not_brace] @
     lits ''createdBy'' @ [Lazy not_brace]"

definition relation_group2 :: "atom list" where
  "relation_group2 =
     plus_of is_space @ [One ident_start, Greedy ident_char] @ plus_of is_space @
     [Lazy not_brace] @ lits ''[]''"

text \<open>The field pattern up to the lazy star in front of its second group.\<close>

definition model_front :: "string \<Rightarrow> atom list" where
  "model_front X =
     lits (hdr X) @ [Lazy not_brace] @ lits ''createdById'' @ plus_of is_space @ lits ''String''"



section \<open>Facts about the matcher and the scan\<close>

lemma bt_split: "bt p s = Some (a, b, r) \<Longrightarrow> s = a @ b @ r"
proof (induction p s arbitrary: a b r rule: bt.induct)
  case (1 s)
  then show ?case by simp
next
  case (2 p s)
  then show ?case by (simp split: option.splits prod.splits) 
next
  case (3 c p)
  then show ?case by simp
next
  case (4 c p x s)
  then show ?case by (simp split: option.splits if_splits prod.splits)
next
  case (5 P p)
  then show ?case by simp
next
  case (6 P p x s)
  then show ?case by (simp split: option.splits if_splits prod.splits)
next
  case (7 P p s)
  show ?case
  proof (cases "bt p s")
    case (Some res)
    then show ?thesis using 7 by simp
  next
    case None
    then obtain x s' where s: "s = x # s'" and Px: "P x" using 7(3) by (cases s) (auto split: if_splits)
    then obtain a' where "bt (Lazy P # p) s' = Some (a', b, r)" and a: "a = x # a'"
      using 7(3) None by (auto split: option.splits)
    then have "s' = a' @ b @ r" using 7(2)[OF None s Px] by simp
    then show ?thesis using s a by simp
  qed
next
  case (8 P p)
  then show ?case by simp
next
  case (9 P p x s)
  show ?case
  proof (cases "P x")
    case False
    then show ?thesis using 9 by simp
  next
    case True
    show ?thesis
    proof (cases "bt (Greedy P # p) s")
      case None
      then show ?thesis using 9 True by simp
    next
      case (Some res)
      then obtain a' where "bt (Greedy P # p) s = Some (a', b, r)" and a: "a = x # a'"
        using 9(4) True by (cases res) auto
      then show ?thesis using 9(1)[OF True] by simp
    qed
  qed
qed

lemma bt_lits_Nil: "bt (lits (c # h) @ p) [] = None"
  by (simp add: lits_def)

lemma bt_lits_Cons:
  "bt (lits (c # h) @ p) (x # s) =
     (if x = c then (case bt (lits h @ p) s of None \<Rightarrow> None | Some (a, b, r) \<Rightarrow> Some (x # a, b, r))
      else None)"
  by (simp add: lits_def)

lemma bt_lits_prefix: "bt (lits h @ p) s = Some res \<Longrightarrow> prefix h s"
proof (induction h arbitrary: s res)
  case Nil
  then show ?case by simp
next
  case (Cons c h)
  then obtain x s' where s: "s = x # s'" by (cases s) (simp_all add: bt_lits_Nil)
  then have "x = c" and "bt (lits h @ p) s' \<noteq> None"
    using Cons.prems by (auto simp: bt_lits_Cons split: if_splits option.splits)
  then show ?case using Cons.IH s by auto
qed

lemma sub_None_Nil: "bt p [] = None \<Longrightarrow> sub p ins [] = []"
  by (simp add: sub.simps)

lemma sub_None_Cons: "bt p (x # s) = None \<Longrightarrow> sub p ins (x # s) = x # sub p ins s"
  by (simp add: sub.simps)

lemma sub_Some:
  "bt p s = Some (a, b, r) \<Longrightarrow> length r < length s \<Longrightarrow> sub p ins s = a @ ins @ b @ sub p ins r"
  by (simp add: sub.simps)

lemma sub_Some_empty_Nil:
  "bt p [] = Some (a, b, r) \<Longrightarrow> sub p ins [] = ins"
  by (simp add: sub.simps)

lemma sub_Some_empty_Cons:
  "bt p (x # s) = Some (a, b, r) \<Longrightarrow> \<not> length r < Suc (length s) \<Longrightarrow> sub p ins (x # s) = ins @ x # sub p ins s"
  by (simp add: sub.simps)

lemma sub_no_header: "\<not> sublist h s \<Longrightarrow> sub (lits h @ p) ins s = s"
proof (induction s)
  case Nil
  then have "bt (lits h @ p) [] = None"
    using bt_lits_prefix[of h p "[]"] by (cases "bt (lits h @ p) []") auto
  then show ?case by (simp add: sub_None_Nil)
next
  case (Cons x s)
  have "bt (lits h @ p) (x # s) = None"
    using bt_lits_prefix[of h p "x # s"] Cons.prems
    by (cases "bt (lits h @ p) (x # s)") (auto simp: sublist_Cons_right)
  moreover have "\<not> sublist h s" using Cons.prems by (auto simp: sublist_Cons_right)
  ultimately show ?case using Cons.IH by (simp add: sub_None_Cons)
qed

lemma sub_subseq: "subseq s (sub p ins s)"
proof (induction "length s" arbitrary: s rule: less_induct)
  case less
  show ?case
  proof (cases "bt p s")
    case None
    show ?thesis
    proof (cases s)
      case Nil
      then show ?thesis by simp
    next
      case (Cons x s')
      have "subseq s' (sub p ins s')" using less Cons by simp
      then show ?thesis using None Cons by (simp add: sub_None_Cons)
    qed
  next
    case (Some res)
    obtain a b r where res: "res = (a, b, r)" by (cases res)
    have s: "s = a @ b @ r" using bt_split Some res by blast
    show ?thesis
    proof (cases "length r < length s")
      case True
      have "subseq r (sub p ins r)" using less True by blast
      then have "subseq (b @ r) (b @ sub p ins r)"
        by (rule list_emb_append_mono[OF subseq_order.order_refl])
      then have "subseq (b @ r) (ins @ b @ sub p ins r)"
        by (rule list_emb_append2)
      then have "subseq (a @ b @ r) (a @ ins @ b @ sub p ins r)"
        by (rule list_emb_append_mono[OF subseq_order.order_refl])
      then show ?thesis using sub_Some[OF Some[unfolded res] True] s by simp
    next
      case False
      show ?thesis
      proof (cases s)
        case Nil
        then show ?thesis by simp
      next
        case (Cons x s')
        have "subseq s' (sub p ins s')" using less Cons by simp
        then have "subseq (x # s') (x # sub p ins s')" by simp
        then have "subseq (x # s') (ins @ x # sub p ins s')" by (rule list_emb_append2)
        moreover have "sub p ins (x # s') = ins @ x # sub p ins s'"
          using Some res False Cons by (simp add: sub_Some_empty_Cons)
        ultimately show ?thesis using Cons by simp
      qed
    qed
  qed
qed

lemma sub_length: "length s \<le> length (sub p ins s)"
  using sub_subseq[of s p ins] by (rule list_emb_length)

subsection \<open>The invariant of the program\<close>

lemma main_inv_init: "main_inv w (init w)"
  by (simp add: main_inv_def init_def)

lemma main_inv_step: "main_inv w0 s \<Longrightarrow> main_inv w0 (step s)"
proof (cases "pc s")
  case AtRead
  assume "main_inv w0 s"
  then show ?thesis using AtRead
    by (auto simp: main_inv_def print_def read_file_def Let_def split: option.splits)
next
  case (AtLoop ms)
  assume inv: "main_inv w0 s"
  show ?thesis
  proof (cases ms)
    case Nil
    then show ?thesis using inv AtLoop
      by (auto simp: main_inv_def print_def rewrite_all_def)
  next
    case (Cons m ms')
    from inv AtLoop obtain c dn where c: "disk w0 = Some c" "models_to_update = dn @ ms"
      "buffer s = foldl add_organization_id_to_model c dn"
      and f: "disk (world s) = disk w0" "writes (world s) = writes w0"
      by (auto simp: main_inv_def)
    have "models_to_update = (dn @ [m]) @ ms'" using c Cons by simp
    moreover have "add_organization_id_to_model (buffer s) m =
        foldl add_organization_id_to_model c (dn @ [m])" using c by simp
    ultimately have "\<exists>c' dn'. disk w0 = Some c' \<and> models_to_update = dn' @ ms' \<and>
        add_organization_id_to_model (buffer s) m = foldl add_organization_id_to_model c' dn'"
      using c(1) by blast
    then show ?thesis using AtLoop Cons f
      by (simp add: main_inv_def print_def del: foldl_append)
  qed
next
  case AtWrite
  assume "main_inv w0 s"
  then show ?thesis using AtWrite
    by (auto simp: main_inv_def print_def write_file_def)
next
  case Finished
  assume "main_inv w0 s"
  then show ?thesis using Finished by simp
next
  case (Failed e)
  assume "main_inv w0 s"
  then show ?thesis using Failed by simp
qed

lemma main_inv_run: "main_inv w0 s \<Longrightarrow> main_inv w0 (run k s)"
  by (induction k arbitrary: s) (simp_all add: main_inv_step del: step.simps)

subsection \<open>Models that are not in the document\<close>

lemma add_no_header:
  "\<not> sublist (hdr X) c \<Longrightarrow> add_organization_id_to_model c X = c"
  by (simp add: add_organization_id_to_model_def field_pass_def relation_pass_def
      index_pass_def model_pattern_def relation_pattern_def index_pattern_def sub_no_header)

lemma hdr_mo: "sublist ''mo'' (hdr X)"
proof -
  have "hdr X = [] @ ''mo'' @ (''del '' @ X @ '' {'')" by (simp add: hdr_def)
  then show ?thesis unfolding sublist_def by blast
qed

lemma add_other:
  assumes "\<not> prefix (hdr X) c" and "\<not> sublist ''mo'' (tl c)"
  shows "add_organization_id_to_model c X = c"
proof -
  have "\<not> sublist (hdr X) c"
  proof (cases c)
    case Nil
    then show ?thesis by (simp add: hdr_def)
  next
    case (Cons x s)
    have "\<not> sublist (hdr X) s"
      using assms(2) Cons hdr_mo[of X] sublist_order.order_trans by auto
    then show ?thesis using assms(1) Cons by (simp add: sublist_Cons_right)
  qed
  then show ?thesis by (rule add_no_header)
qed

lemma foldl_fixed: "(\<And>X. X \<in> set l \<Longrightarrow> f c X = c) \<Longrightarrow> foldl f c l = c"
  by (induction l) simp_all

lemma other_headers:
  "list_all (\<lambda>X. \<not> prefix (hdr X) (hdr ''Task'') \<and> \<not> prefix (hdr ''Task'') (hdr X))
     (remove1 ''Task'' models_to_update)"
  by code_simp

lemma models_split:
  "models_to_update =
     take 5 models_to_update @ ''Task'' # drop 6 models_to_update \<and>
   remove1 ''Task'' models_to_update = take 5 models_to_update @ drop 6 models_to_update"
  by code_simp

lemma rewrite_all_only_task:
  assumes "prefix (hdr ''Task'') c" and "\<not> sublist ''mo'' (tl c)"
    and "prefix (hdr ''Task'') (add_organization_id_to_model c ''Task'')"
    and "\<not> sublist ''mo'' (tl (add_organization_id_to_model c ''Task''))"
  shows "rewrite_all c = add_organization_id_to_model c ''Task''"
proof -
  have other: "add_organization_id_to_model d X = d"
    if "X \<in> set (remove1 ''Task'' models_to_update)" "prefix (hdr ''Task'') d"
      "\<not> sublist ''mo'' (tl d)" for X d
  proof -
    have "\<not> prefix (hdr X) (hdr ''Task'') \<and> \<not> prefix (hdr ''Task'') (hdr X)"
      using other_headers that(1) by (simp add: list_all_iff)
    then have "\<not> prefix (hdr X) d" using that(2) prefix_same_cases by blast
    then show ?thesis using that(3) by (rule add_other)
  qed
  have set1: "set (take 5 models_to_update) \<subseteq> set (remove1 ''Task'' models_to_update)"
    and set2: "set (drop 6 models_to_update) \<subseteq> set (remove1 ''Task'' models_to_update)"
    using models_split by (metis set_append Un_upper1, metis set_append Un_upper2)
  have 1: "foldl add_organization_id_to_model c (take 5 models_to_update) = c"
    by (rule foldl_fixed) (use other assms(1,2) set1 in blast)
  have 2: "foldl add_organization_id_to_model (add_organization_id_to_model c ''Task'')
      (drop 6 models_to_update) = add_organization_id_to_model c ''Task''"
    by (rule foldl_fixed) (use other assms(3,4) set2 in blast)
  have "rewrite_all c = foldl add_organization_id_to_model c
      (take 5 models_to_update @ ''Task'' # drop 6 models_to_update)"
    unfolding rewrite_all_def using models_split by simp
  then show ?thesis using 1 2 by simp
qed

subsection \<open>Matches, stretches between braces and the three passes\<close>

lemma den_lits: "den (lits h @ p) w = (\<exists>v. w = h @ v \<and> den p v)"
  by (induction h arbitrary: w) (auto simp: lits_def)

lemma den_append: "Mark \<notin> set p \<Longrightarrow> den (p @ q) w = (\<exists>u v. w = u @ v \<and> den p u \<and> den q v)"
proof (induction p arbitrary: w)
  case Nil
  then show ?case by simp
next
  case (Cons x p)
  show ?case
  proof (cases x)
    case (Lit c)
    have "(\<exists>v. w = c # v \<and> (\<exists>u' v'. v = u' @ v' \<and> den p u' \<and> den q v')) =
          (\<exists>u v. w = u @ v \<and> (\<exists>t. u = c # t \<and> den p t) \<and> den q v)"
      by (metis append_Cons)
    then show ?thesis using Cons Lit by simp
  next
    case (One P)
    have "(\<exists>x v. w = x # v \<and> P x \<and> (\<exists>u' v'. v = u' @ v' \<and> den p u' \<and> den q v')) =
          (\<exists>u v. w = u @ v \<and> (\<exists>x t. u = x # t \<and> P x \<and> den p t) \<and> den q v)"
      by (metis append_Cons)
    then show ?thesis using Cons One by simp
  next
    case (Lazy P)
    have "(\<exists>u v. w = u @ v \<and> list_all P u \<and> (\<exists>u' v'. v = u' @ v' \<and> den p u' \<and> den q v')) =
          (\<exists>u v. w = u @ v \<and> (\<exists>ua va. u = ua @ va \<and> list_all P ua \<and> den p va) \<and> den q v)"
      by (metis append.assoc)
    then show ?thesis using Cons Lazy by simp
  next
    case (Greedy P)
    have "(\<exists>u v. w = u @ v \<and> list_all P u \<and> (\<exists>u' v'. v = u' @ v' \<and> den p u' \<and> den q v')) =
          (\<exists>u v. w = u @ v \<and> (\<exists>ua va. u = ua @ va \<and> list_all P ua \<and> den p va) \<and> den q v)"
      by (metis append.assoc)
    then show ?thesis using Cons Greedy by simp
  next
    case Mark
    then show ?thesis using Cons by simp
  qed
qed

text \<open>Completeness: a text of the pattern at the head of the string is found.\<close>

lemma bt_lazy_complete:
  assumes "\<And>v r. den p v \<Longrightarrow> bt p (v @ r) \<noteq> None"
    and "list_all P u" and "den p v"
  shows "bt (Lazy P # p) (u @ v @ r) \<noteq> None"
  using assms(2)
proof (induction u)
  case Nil
  then show ?case using assms(1)[OF assms(3), of r] by (auto split: option.splits)
next
  case (Cons x u)
  then show ?case by (auto split: option.splits)
qed

lemma bt_greedy_complete:
  assumes "\<And>v r. den p v \<Longrightarrow> bt p (v @ r) \<noteq> None"
    and "list_all P u" and "den p v"
  shows "bt (Greedy P # p) (u @ v @ r) \<noteq> None"
  using assms(2)
proof (induction u)
  case Nil
  have "bt (Greedy P # p) s \<noteq> None" if "bt p s \<noteq> None" for s
    using that by (cases s) (auto split: option.splits)
  then show ?case using assms(1)[OF assms(3), of r] by simp
next
  case (Cons x u)
  then show ?case by (auto split: option.splits)
qed

lemma bt_complete: "den p v \<Longrightarrow> bt p (v @ r) \<noteq> None"
proof (induction p arbitrary: v r)
  case Nil
  then show ?case by simp
next
  case (Cons x p)
  show ?case
  proof (cases x)
    case (Lit c)
    then show ?thesis using Cons by (auto split: option.splits)
  next
    case (One P)
    then show ?thesis using Cons by (auto split: option.splits)
  next
    case (Lazy P)
    then obtain u v' where "v = u @ v'" "list_all P u" "den p v'" using Cons.prems by auto
    then show ?thesis using bt_lazy_complete[of p P u v' r] Cons.IH Lazy by simp
  next
    case (Greedy P)
    then obtain u v' where "v = u @ v'" "list_all P u" "den p v'" using Cons.prems by auto
    then show ?thesis using bt_greedy_complete[of p P u v' r] Cons.IH Greedy by simp
  next
    case Mark
    then show ?thesis using Cons by (auto split: option.splits)
  qed
qed

lemma den_Lazy_skip: "den p u \<Longrightarrow> den (Lazy P # p) u"
  by (simp, rule exI[of _ "[]"]) simp

lemma den_Greedy_skip: "den p u \<Longrightarrow> den (Greedy P # p) u"
  by (simp, rule exI[of _ "[]"]) simp

lemma den_Lazy_Cons: "P x \<Longrightarrow> den (Lazy P # p) u \<Longrightarrow> den (Lazy P # p) (x # u)"
proof -
  assume Px: "P x" and "den (Lazy P # p) u"
  then obtain l v where "u = l @ v" "list_all P l" "den p v" by auto
  then have "x # u = (x # l) @ v \<and> list_all P (x # l) \<and> den p v" using Px by simp
  then show ?thesis unfolding den.simps by blast
qed

lemma den_Greedy_Cons: "P x \<Longrightarrow> den (Greedy P # p) u \<Longrightarrow> den (Greedy P # p) (x # u)"
proof -
  assume Px: "P x" and "den (Greedy P # p) u"
  then obtain l v where "u = l @ v" "list_all P l" "den p v" by auto
  then have "x # u = (x # l) @ v \<and> list_all P (x # l) \<and> den p v" using Px by simp
  then show ?thesis unfolding den.simps by blast
qed

text \<open>What a pattern before the rest of the pattern has consumed.\<close>

lemma bt_peel:
  "bt pq s = Some (a, b, r) \<Longrightarrow> pq = p @ q \<Longrightarrow> Mark \<notin> set p \<Longrightarrow>
   \<exists>u t a'. s = u @ t \<and> den p u \<and> bt q t = Some (a', b, r) \<and> a = u @ a'"
proof (induction pq s arbitrary: p a rule: bt.induct)
  case (1 s)
  then show ?case by simp
next
  case (2 pp s)
  then have "p = []" by (cases p) auto
  then show ?case using 2 by simp
next
  case (3 c pp)
  from 3(1) show ?case by simp
next
  case (4 c pp x s)
  show ?case
  proof (cases p)
    case Nil
    then show ?thesis using 4 by simp
  next
    case (Cons y p')
    then have y: "y = Lit c" and pp: "pp = p' @ q" and m: "Mark \<notin> set p'" using 4 by auto
    from 4(2) obtain a0 where xc: "x = c" and b0: "bt pp s = Some (a0, b, r)" and a: "a = x # a0"
      by (auto split: if_splits option.splits)
    from 4(1)[OF xc b0 pp m] obtain u t a' where
      "s = u @ t" "den p' u" "bt q t = Some (a', b, r)" "a0 = u @ a'" by blast
    then have "x # s = (x # u) @ t \<and> den p (x # u) \<and> bt q t = Some (a', b, r) \<and> a = (x # u) @ a'"
      using Cons y xc a by simp
    then show ?thesis by blast
  qed
next
  case (5 P pp)
  from 5(1) show ?case by simp
next
  case (6 P pp x s)
  show ?case
  proof (cases p)
    case Nil
    then show ?thesis using 6 by simp
  next
    case (Cons y p')
    then have y: "y = One P" and pp: "pp = p' @ q" and m: "Mark \<notin> set p'" using 6 by auto
    from 6(2) obtain a0 where xc: "P x" and b0: "bt pp s = Some (a0, b, r)" and a: "a = x # a0"
      by (auto split: if_splits option.splits)
    from 6(1)[OF xc b0 pp m] obtain u t a' where
      "s = u @ t" "den p' u" "bt q t = Some (a', b, r)" "a0 = u @ a'" by blast
    then have "x # s = (x # u) @ t \<and> den p (x # u) \<and> bt q t = Some (a', b, r) \<and> a = (x # u) @ a'"
      using Cons y xc a by simp
    then show ?thesis by blast
  qed
next
  case (7 P pp s)
  show ?case
  proof (cases p)
    case Nil
    then show ?thesis using 7 by simp
  next
    case (Cons y p')
    then have y: "y = Lazy P" and pp: "pp = p' @ q" and m: "Mark \<notin> set p'" using 7 by auto
    show ?thesis
    proof (cases "bt pp s")
      case (Some res)
      then have "bt pp s = Some (a, b, r)" using 7(3) by simp
      from 7(1)[OF this pp m] obtain u t a' where
        "s = u @ t" "den p' u" "bt q t = Some (a', b, r)" "a = u @ a'" by blast
      moreover from this have "den p u" using Cons y den_Lazy_skip den_Greedy_skip by blast
      ultimately show ?thesis by blast
    next
      case None
      then obtain x s' a0 where s: "s = x # s'" and Px: "P x"
        and b0: "bt (Lazy P # pp) s' = Some (a0, b, r)" and a: "a = x # a0"
        using 7(3) by (cases s) (auto split: if_splits option.splits)
      have "Lazy P # pp = p @ q" using Cons y pp by simp
      from 7(2)[OF None s Px b0 this 7(5)] obtain u t a' where
        u: "s' = u @ t" "den p u" "bt q t = Some (a', b, r)" "a0 = u @ a'" by blast
      have "den p (x # u)" using u(2) Cons y Px den_Lazy_Cons by blast
      then have "s = (x # u) @ t \<and> den p (x # u) \<and> bt q t = Some (a', b, r) \<and> a = (x # u) @ a'"
        using u s a by simp
      then show ?thesis by blast
    qed
  qed
next
  case (8 P pp)
  show ?case
  proof (cases p)
    case Nil
    then show ?thesis using 8 by simp
  next
    case (Cons y p')
    then have y: "y = Greedy P" and pp: "pp = p' @ q" and m: "Mark \<notin> set p'" using 8 by auto
    have "bt pp [] = Some (a, b, r)" using 8(2) by simp
    from 8(1)[OF this pp m] obtain u t a' where
      "[] = u @ t" "den p' u" "bt q t = Some (a', b, r)" "a = u @ a'" by blast
    moreover from this have "den p u" using Cons y den_Lazy_skip den_Greedy_skip by blast
    ultimately show ?thesis by blast
  qed
next
  case (9 P pp x s)
  show ?case
  proof (cases p)
    case Nil
    then show ?thesis using 9 by simp
  next
    case (Cons y p')
    then have y: "y = Greedy P" and pp: "pp = p' @ q" and m: "Mark \<notin> set p'" using 9 by auto
    have skip: ?thesis if "bt pp (x # s) = Some (a, b, r)"
      and ih: "\<And>p a. bt pp (x # s) = Some (a, b, r) \<Longrightarrow> pp = p @ q \<Longrightarrow> Mark \<notin> set p \<Longrightarrow>
        \<exists>u t a'. x # s = u @ t \<and> den p u \<and> bt q t = Some (a', b, r) \<and> a = u @ a'"
    proof -
      from ih[OF that(1) pp m] obtain u t a' where
        "x # s = u @ t" "den p' u" "bt q t = Some (a', b, r)" "a = u @ a'" by blast
      moreover from this have "den p u" using Cons y den_Lazy_skip den_Greedy_skip by blast
      ultimately show ?thesis by blast
    qed
    show ?thesis
    proof (cases "P x")
      case False
      then have "bt pp (x # s) = Some (a, b, r)" using 9(4) by simp
      then show ?thesis using skip 9(3)[OF False] by blast
    next
      case True
      show ?thesis
      proof (cases "bt (Greedy P # pp) s")
        case None
        then have "bt pp (x # s) = Some (a, b, r)" using 9(4) True by simp
        then show ?thesis using skip 9(2)[OF True None] by blast
      next
        case (Some res)
        then obtain a0 where b0: "bt (Greedy P # pp) s = Some (a0, b, r)" and a: "a = x # a0"
          using 9(4) True by (cases res) auto
        have "Greedy P # pp = p @ q" using Cons y pp by simp
        from 9(1)[OF True b0 this 9(6)] obtain u t a' where
          u: "s = u @ t" "den p u" "bt q t = Some (a', b, r)" "a0 = u @ a'" by blast
        have "den p (x # u)" using u(2) Cons y True den_Greedy_Cons by blast
        then have "x # s = (x # u) @ t \<and> den p (x # u) \<and> bt q t = Some (a', b, r) \<and> a = (x # u) @ a'"
          using u a by simp
        then show ?thesis by blast
      qed
    qed
  qed
qed

lemma bt_Mark_sound:
  assumes "bt (Mark # q) t = Some (a, b, r)" and "Mark \<notin> set q"
  shows "a = [] \<and> den q b \<and> t = b @ r"
proof -
  from assms(1) obtain a0 b0 where q: "bt q t = Some (a0, b0, r)" and a: "a = []" and b: "b = a0 @ b0"
    by (auto split: option.splits)
  from bt_peel[OF q, of q "[]"] assms(2) obtain u t' a' where
    "t = u @ t'" "den q u" "bt [] t' = Some (a', b0, r)" "a0 = u @ a'" by auto
  then show ?thesis using a b by auto
qed

text \<open>Both groups of a match are texts of their patterns.\<close>

lemma bt_sound:
  assumes "bt (g1 @ Mark # g2) s = Some (a, b, r)" and "Mark \<notin> set g1" and "Mark \<notin> set g2"
  shows "den g1 a \<and> den g2 b \<and> s = a @ b @ r"
proof -
  from bt_peel[OF assms(1) refl assms(2)] obtain u t a' where
    u: "s = u @ t" "den g1 u" "bt (Mark # g2) t = Some (a', b, r)" "a = u @ a'" by blast
  from bt_Mark_sound[OF u(3) assms(3)] show ?thesis using u by simp
qed

lemma bt_lits_app:
  "bt (lits h @ q) (h @ t) = (case bt q t of None \<Rightarrow> None | Some (a, b, r) \<Rightarrow> Some (h @ a, b, r))"
  by (induction h) (auto simp: lits_def split: option.splits)

lemma bt_lits_Some:
  assumes "bt (lits h @ q) s = Some (a, b, r)"
  shows "\<exists>a' t. s = h @ t \<and> a = h @ a' \<and> bt q t = Some (a', b, r)"
proof -
  from bt_lits_prefix[OF assms] obtain t where s: "s = h @ t" by (auto simp: prefix_def)
  then show ?thesis using assms by (auto simp: bt_lits_app split: option.splits)
qed

lemma bt_lits_shorter:
  "bt (lits (c # h) @ q) s = Some (a, b, r) \<Longrightarrow> length r < length s"
proof -
  assume "bt (lits (c # h) @ q) s = Some (a, b, r)"
  from bt_lits_Some[OF this] obtain a' t where
    s: "s = (c # h) @ t" and q: "bt q t = Some (a', b, r)" by blast
  from bt_split[OF q] have "length r \<le> length t" by simp
  then show ?thesis using s by simp
qed

text \<open>The scan for a pattern that starts with a literal.\<close>

lemma sub_lits_Some:
  "bt (lits (c # h) @ q) s = Some (a, b, r) \<Longrightarrow>
   sub (lits (c # h) @ q) ins s = a @ ins @ b @ sub (lits (c # h) @ q) ins r"
  using bt_lits_shorter sub_Some by blast

lemma sub_Nil: "sub (lits (c # h) @ q) ins [] = []"
  by (simp add: sub_None_Nil bt_lits_Nil)

lemma sub_set: "set (sub p ins s) \<subseteq> set s \<union> set ins"
proof (induction "length s" arbitrary: s rule: less_induct)
  case less
  show ?case
  proof (cases "bt p s")
    case None
    show ?thesis
    proof (cases s)
      case Nil
      then show ?thesis using None by (simp add: sub_None_Nil)
    next
      case (Cons x s')
      have "set (sub p ins s') \<subseteq> set s' \<union> set ins" using less Cons by simp
      then show ?thesis using None Cons by (auto simp: sub_None_Cons)
    qed
  next
    case (Some res)
    obtain a b r where res: "res = (a, b, r)" by (cases res)
    have s: "s = a @ b @ r" using bt_split Some res by blast
    show ?thesis
    proof (cases "length r < length s")
      case True
      have "set (sub p ins r) \<subseteq> set r \<union> set ins" using less True by blast
      then show ?thesis using sub_Some[OF Some[unfolded res] True, of ins] s by auto
    next
      case False
      show ?thesis
      proof (cases s)
        case Nil
        then show ?thesis using Some res by (simp add: sub_Some_empty_Nil)
      next
        case (Cons x s')
        have "set (sub p ins s') \<subseteq> set s' \<union> set ins" using less Cons by simp
        moreover have "sub p ins (x # s') = ins @ x # sub p ins s'"
          using Some res False Cons by (simp add: sub_Some_empty_Cons)
        ultimately show ?thesis using Cons by auto
      qed
    qed
  qed
qed

text \<open>A pattern that cannot consume a closing brace matches inside one brace-free stretch.\<close>

lemma bt_brace:
  "list_all atom_nb p \<Longrightarrow>
   bt p (t @ CHR ''}'' # B) =
     (case bt p t of None \<Rightarrow> None | Some (a, b, r) \<Rightarrow> Some (a, b, r @ CHR ''}'' # B))"
proof (induction p t rule: bt.induct)
  case (1 s)
  then show ?case by simp
next
  case (2 p s)
  then show ?case by (simp split: option.splits)
next
  case (3 c p)
  then show ?case by auto
next
  case (4 c p x s)
  then show ?case by (simp split: option.splits)
next
  case (5 P p)
  then show ?case by simp
next
  case (6 P p x s)
  then show ?case by (simp split: option.splits)
next
  case (7 P p s)
  have nb: "list_all atom_nb p" and P: "\<not> P CHR ''}''" using 7(3) by simp_all
  note ih1 = 7(1)[OF nb]
  show ?case
  proof (cases "bt p s")
    case (Some res)
    then show ?thesis using ih1 by (cases res) simp
  next
    case None
    then have n: "bt p (s @ CHR ''}'' # B) = None" using ih1 by simp
    show ?thesis
    proof (cases s)
      case Nil
      then show ?thesis using None n P by simp
    next
      case (Cons x s')
      show ?thesis
      proof (cases "P x")
        case True
        from 7(2)[OF None Cons True 7(3)] show ?thesis
          using None n Cons True by (simp split: option.splits)
      next
        case False
        then show ?thesis using None n Cons by simp
      qed
    qed
  qed
next
  case (8 P p)
  then show ?case by simp
next
  case (9 P p x s)
  have nb: "list_all atom_nb p" using 9(4) by simp
  show ?case
  proof (cases "P x")
    case False
    then show ?thesis using 9(3)[OF False nb] by simp
  next
    case True
    note ih = 9(1)[OF True 9(4)]
    show ?thesis
    proof (cases "bt (Greedy P # p) s")
      case None
      then show ?thesis using ih 9(2)[OF True None nb] True by simp
    next
      case (Some res)
      then show ?thesis using ih True by (cases res) simp
    qed
  qed
qed

lemma sub_brace:
  assumes "list_all atom_nb (lits (c # h) @ q)"
  shows "sub (lits (c # h) @ q) ins (A @ CHR ''}'' # B) =
         sub (lits (c # h) @ q) ins A @ CHR ''}'' # sub (lits (c # h) @ q) ins B"
proof (induction "length A" arbitrary: A rule: less_induct)
  case less
  let ?p = "lits (c # h) @ q"
  note br = bt_brace[OF assms, of _ B]
  show ?case
  proof (cases "bt ?p A")
    case None
    then have n: "bt ?p (A @ CHR ''}'' # B) = None" using br by simp
    show ?thesis
    proof (cases A)
      case Nil
      then show ?thesis using n by (simp add: sub_None_Cons sub_Nil)
    next
      case (Cons x A')
      have "sub ?p ins (A' @ CHR ''}'' # B) = sub ?p ins A' @ CHR ''}'' # sub ?p ins B"
        using less Cons by simp
      then show ?thesis using None n Cons by (simp add: sub_None_Cons)
    qed
  next
    case (Some res)
    obtain a b r where res: "res = (a, b, r)" by (cases res)
    have 1: "bt ?p (A @ CHR ''}'' # B) = Some (a, b, r @ CHR ''}'' # B)"
      using br Some res by simp
    have "length r < length A" using bt_lits_shorter Some res by blast
    then have "sub ?p ins (r @ CHR ''}'' # B) = sub ?p ins r @ CHR ''}'' # sub ?p ins B"
      using less by simp
    then show ?thesis
      using sub_lits_Some[OF 1, of ins] sub_lits_Some[OF Some[unfolded res], of ins] by simp
  qed
qed

lemma bt_close_seg:
  "CHR ''}'' \<notin> set y \<Longrightarrow>
   bt [Lazy not_brace, Mark, Lit CHR ''}''] (y @ CHR ''}'' # r) = Some (y, ''}'', r)"
  by (induction y) (auto simp: not_brace_def)

lemma bt_close_none:
  "CHR ''}'' \<notin> set y \<Longrightarrow> bt [Lazy not_brace, Mark, Lit CHR ''}''] y = None"
  by (induction y) (auto simp: not_brace_def)

lemma hdr_no_brace: "name_ok X \<Longrightarrow> CHR ''}'' \<notin> set (hdr X)"
  by (auto simp: name_ok_def hdr_def list_all_iff ident_char_def is_letter_def is_digit_def Let_def)

lemma hdr_Cons: "hdr X = CHR ''m'' # ''odel '' @ X @ '' {''"
  by (simp add: hdr_def)

lemma prefix_brace_free:
  assumes "prefix h (z @ CHR ''}'' # B)" and "CHR ''}'' \<notin> set h"
  shows "prefix h z"
proof -
  from assms(1) have "prefix h z \<or> (\<exists>us. h = z @ us \<and> prefix us (CHR ''}'' # B))"
    by (auto simp: prefix_append)
  moreover have False if "h = z @ us" "prefix us (CHR ''}'' # B)" "\<not> prefix h z" for us
  proof -
    from that(1,3) have "us \<noteq> []" by auto
    then obtain u us' where "us = u # us'" by (cases us) auto
    then have "u = CHR ''}''" using that(2) by simp
    then show False using assms(2) that(1) \<open>us = u # us'\<close> by simp
  qed
  ultimately show ?thesis by blast
qed

lemma index_seg:
  assumes X: "name_ok X" and x: "CHR ''}'' \<notin> set x" and y: "CHR ''}'' \<notin> set y"
  shows "index_pass X (x @ hdr X @ y @ CHR ''}'' # B) =
         x @ hdr X @ y @ index_replacement @ CHR ''}'' # index_pass X B"
  using x
proof (induction x)
  case Nil
  have "bt (index_pattern X) (hdr X @ y @ CHR ''}'' # B) = Some (hdr X @ y, ''}'', B)"
    using bt_close_seg[OF y, of B] by (simp add: index_pattern_def bt_lits_app del: bt.simps)
  then show ?case
    unfolding index_pass_def index_pattern_def hdr_Cons
    using sub_lits_Some by fastforce
next
  case (Cons c x)
  let ?s = "(c # x) @ hdr X @ y @ CHR ''}'' # B"
  show ?case
  proof (cases "bt (index_pattern X) ?s")
    case None
    then show ?thesis using Cons by (simp add: index_pass_def sub_None_Cons)
  next
    case (Some res)
    obtain a b r where res: "res = (a, b, r)" by (cases res)
    from Some res obtain a' t where
      s: "?s = hdr X @ t" and a: "a = hdr X @ a'"
      and t: "bt [Lazy not_brace, Mark, Lit CHR ''}''] t = Some (a', b, r)"
      unfolding index_pattern_def using bt_lits_Some by blast
    have "prefix (hdr X) (((c # x) @ hdr X @ y) @ CHR ''}'' # B)" using s by (simp add: prefix_def)
    then have "prefix (hdr X) ((c # x) @ hdr X @ y)"
      using prefix_brace_free hdr_no_brace[OF X] by blast
    then obtain t1 where t1: "(c # x) @ hdr X @ y = hdr X @ t1" by (auto simp: prefix_def)
    then have "t = t1 @ CHR ''}'' # B" using s by (metis append.assoc same_append_eq)
    moreover have "CHR ''}'' \<notin> set t1"
    proof -
      have "set t1 \<subseteq> set ((c # x) @ hdr X @ y)" using t1 by (metis set_append Un_upper2)
      then show ?thesis using Cons.prems y hdr_no_brace[OF X] by auto
    qed
    ultimately have "a' = t1 \<and> b = ''}'' \<and> r = B" using t bt_close_seg by simp
    then have "bt (index_pattern X) ?s = Some ((c # x) @ hdr X @ y, ''}'', B)"
      using Some res a t1 by simp
    then show ?thesis
      unfolding index_pass_def index_pattern_def hdr_Cons
      using sub_lits_Some by fastforce
  qed
qed

lemma index_no_header:
  assumes X: "name_ok X" and x: "CHR ''}'' \<notin> set x" and h: "\<not> sublist (hdr X) x"
  shows "index_pass X (x @ CHR ''}'' # B) = x @ CHR ''}'' # index_pass X B"
  using x h
proof (induction x)
  case Nil
  have "bt (index_pattern X) (CHR ''}'' # B) = None"
    by (simp add: index_pattern_def hdr_Cons lits_def)
  then show ?case by (simp add: index_pass_def sub_None_Cons)
next
  case (Cons c x)
  have "bt (index_pattern X) ((c # x) @ CHR ''}'' # B) = None"
  proof (rule ccontr)
    assume "bt (index_pattern X) ((c # x) @ CHR ''}'' # B) \<noteq> None"
    then have "prefix (hdr X) ((c # x) @ CHR ''}'' # B)"
      unfolding index_pattern_def using bt_lits_prefix by blast
    then have "prefix (hdr X) (c # x)" using prefix_brace_free hdr_no_brace[OF X] by blast
    then show False using Cons.prems(2) by (simp add: sublist_Cons_right)
  qed
  moreover have "\<not> sublist (hdr X) x" using Cons.prems(2) by (simp add: sublist_Cons_right)
  ultimately show ?case using Cons by (simp add: index_pass_def sub_None_Cons)
qed

lemma index_no_brace:
  assumes X: "name_ok X" and x: "CHR ''}'' \<notin> set x"
  shows "index_pass X x = x"
  using x
proof (induction x)
  case Nil
  then show ?case by (simp add: index_pass_def index_pattern_def hdr_Cons sub_Nil)
next
  case (Cons c x)
  have "bt (index_pattern X) (c # x) = None"
  proof (rule ccontr)
    assume "bt (index_pattern X) (c # x) \<noteq> None"
    then obtain a b r where "bt (index_pattern X) (c # x) = Some (a, b, r)" by auto
    then obtain a' t where s: "c # x = hdr X @ t"
      and t: "bt [Lazy not_brace, Mark, Lit CHR ''}''] t = Some (a', b, r)"
      unfolding index_pattern_def using bt_lits_Some by blast
    have "set t \<subseteq> set (c # x)" using s by (metis set_append Un_upper2)
    then have "CHR ''}'' \<notin> set t" using Cons.prems by auto
    then show False using t bt_close_none by simp
  qed
  then show ?case using Cons by (simp add: index_pass_def sub_None_Cons)
qed

text \<open>A string is brace-free or has a first closing brace.\<close>

lemma first_brace:
  "CHR ''}'' \<notin> set s \<or> (\<exists>x s'. s = x @ CHR ''}'' # s' \<and> CHR ''}'' \<notin> set x)"
  using split_list_first[of "CHR ''}''" s] by blast

lemma index_block:
  assumes X: "name_ok X" and body: "CHR ''}'' \<notin> set body"
  shows "index_pass X (pre @ hdr X @ body @ CHR ''}'' # post) =
         index_pass X pre @ hdr X @ body @ index_replacement @ CHR ''}'' # index_pass X post"
proof (induction "length pre" arbitrary: pre rule: less_induct)
  case less
  from first_brace[of pre] show ?case
  proof
    assume "CHR ''}'' \<notin> set pre"
    then show ?thesis using index_seg[OF X _ body] index_no_brace[OF X] by simp
  next
    assume "\<exists>x s'. pre = x @ CHR ''}'' # s' \<and> CHR ''}'' \<notin> set x"
    then obtain x s' where pre: "pre = x @ CHR ''}'' # s'" and x: "CHR ''}'' \<notin> set x" by blast
    have ih: "index_pass X (s' @ hdr X @ body @ CHR ''}'' # post) =
        index_pass X s' @ hdr X @ body @ index_replacement @ CHR ''}'' # index_pass X post"
      using less pre by simp
    show ?thesis
    proof (cases "sublist (hdr X) x")
      case False
      then show ?thesis using index_no_header[OF X x False] ih pre by simp
    next
      case True
      then obtain x1 y1 where x1: "x = x1 @ hdr X @ y1" by (auto simp: sublist_def)
      then have "CHR ''}'' \<notin> set x1" "CHR ''}'' \<notin> set y1" using x by auto
      then show ?thesis using index_seg[OF X, of x1 y1] ih pre x1 by simp
    qed
  qed
qed

lemma hdr_not_Nil: "hdr X \<noteq> []"
  by (simp add: hdr_def)

lemma sub_Some_h:
  "h \<noteq> [] \<Longrightarrow> bt (lits h @ q) s = Some (a, b, r) \<Longrightarrow>
   sub (lits h @ q) ins s = a @ ins @ b @ sub (lits h @ q) ins r"
  by (cases h) (simp_all add: sub_lits_Some)

lemma sub_Nil_h: "h \<noteq> [] \<Longrightarrow> sub (lits h @ q) ins [] = []"
  by (cases h) (simp_all add: sub_Nil)

lemma sub_brace_h:
  "h \<noteq> [] \<Longrightarrow> list_all atom_nb (lits h @ q) \<Longrightarrow>
   sub (lits h @ q) ins (A @ CHR ''}'' # B) =
     sub (lits h @ q) ins A @ CHR ''}'' # sub (lits h @ q) ins B"
  by (cases h) (simp_all add: sub_brace)

text \<open>An insertion never comes before the end of the header that starts the match.\<close>

lemma sub_take:
  assumes "h \<noteq> []"
  shows "take (length h) (sub (lits h @ q) ins s) = take (length h) s"
proof (induction "length s" arbitrary: s rule: less_induct)
  case less
  show ?case
  proof (cases "bt (lits h @ q) s")
    case None
    show ?thesis
    proof (cases s)
      case Nil
      then show ?thesis using assms by (simp add: sub_Nil_h)
    next
      case (Cons x s')
      have "take (length h) (sub (lits h @ q) ins s') = take (length h) s'"
        using less Cons by simp
      then have "take (length h - 1) (take (length h) (sub (lits h @ q) ins s')) =
          take (length h - 1) (take (length h) s')" by simp
      then have "take (length h - 1) (sub (lits h @ q) ins s') = take (length h - 1) s'"
        by (simp add: min_def)
      then show ?thesis using None Cons assms by (cases h) (simp_all add: sub_None_Cons)
    qed
  next
    case (Some res)
    obtain a b r where res: "res = (a, b, r)" by (cases res)
    from bt_lits_Some[OF Some[unfolded res]] obtain a' t where
      "s = h @ t" "a = h @ a'" by blast
    then show ?thesis using sub_Some_h[OF assms Some[unfolded res], of ins] by simp
  qed
qed

lemma header_survives:
  assumes "h \<noteq> []" and "sublist h s"
  shows "sublist h (sub (lits h @ q) ins s)"
  using assms(2)
proof (induction "length s" arbitrary: s rule: less_induct)
  case less
  show ?case
  proof (cases "bt (lits h @ q) s")
    case None
    show ?thesis
    proof (cases s)
      case Nil
      then show ?thesis using less.prems assms by simp
    next
      case (Cons x s')
      have eq: "sub (lits h @ q) ins s = x # sub (lits h @ q) ins s'"
        using None Cons by (simp add: sub_None_Cons)
      from less.prems Cons have "prefix h s \<or> sublist h s'" by (simp add: sublist_Cons_right)
      then show ?thesis
      proof
        assume "prefix h s"
        then have "take (length h) s = h" by (auto simp: prefix_def)
        then have "take (length h) (sub (lits h @ q) ins s) = h" using sub_take[OF assms(1)] by simp
        then have "prefix h (sub (lits h @ q) ins s)" by (metis take_is_prefix)
        then show ?thesis by (rule prefix_imp_sublist)
      next
        assume "sublist h s'"
        then have "sublist h (sub (lits h @ q) ins s')" using less Cons by simp
        then show ?thesis using eq by (simp add: sublist_Cons_right)
      qed
    qed
  next
    case (Some res)
    obtain a b r where res: "res = (a, b, r)" by (cases res)
    from bt_lits_Some[OF Some[unfolded res]] obtain a' t where
      "s = h @ t" "a = h @ a'" by blast
    then have "sub (lits h @ q) ins s = [] @ h @ (a' @ ins @ b @ sub (lits h @ q) ins r)"
      using sub_Some_h[OF assms(1) Some[unfolded res], of ins] by simp
    then show ?thesis unfolding sublist_def by blast
  qed
qed

text \<open>Where the pattern matches at no place, the scan changes nothing.\<close>

lemma sub_id:
  "(\<And>t. suffix t s \<Longrightarrow> bt p t = None) \<Longrightarrow> sub p ins s = s"
proof (induction s)
  case Nil
  then show ?case by (simp add: sub_None_Nil)
next
  case (Cons x s)
  have "bt p (x # s) = None" using Cons.prems by simp
  moreover have "sub p ins s = s" using Cons by (simp add: suffix_Cons)
  ultimately show ?case by (simp add: sub_None_Cons)
qed

lemma index_brace:
  assumes X: "name_ok X"
  shows "index_pass X (A @ CHR ''}'' # B) = index_pass X (A @ ''}'') @ index_pass X B"
proof (induction "length A" arbitrary: A rule: less_induct)
  case less
  have nil: "index_pass X [] = []"
    by (simp add: index_pass_def index_pattern_def hdr_Cons sub_Nil)
  from first_brace[of A] show ?case
  proof
    assume A: "CHR ''}'' \<notin> set A"
    show ?thesis
    proof (cases "sublist (hdr X) A")
      case False
      then show ?thesis using index_no_header[OF X A False] nil by simp
    next
      case True
      then obtain x1 y1 where x1: "A = x1 @ hdr X @ y1" by (auto simp: sublist_def)
      then have "CHR ''}'' \<notin> set x1" "CHR ''}'' \<notin> set y1" using A by auto
      then show ?thesis using index_seg[OF X, of x1 y1] x1 nil by simp
    qed
  next
    assume "\<exists>x s'. A = x @ CHR ''}'' # s' \<and> CHR ''}'' \<notin> set x"
    then obtain x A' where A: "A = x @ CHR ''}'' # A'" and x: "CHR ''}'' \<notin> set x" by blast
    have ih: "index_pass X (A' @ CHR ''}'' # B) = index_pass X (A' @ ''}'') @ index_pass X B"
      using less A by simp
    show ?thesis
    proof (cases "sublist (hdr X) x")
      case False
      then show ?thesis using index_no_header[OF X x False] ih A by simp
    next
      case True
      then obtain x1 y1 where x1: "x = x1 @ hdr X @ y1" by (auto simp: sublist_def)
      then have "CHR ''}'' \<notin> set x1" "CHR ''}'' \<notin> set y1" using x by auto
      then show ?thesis using index_seg[OF X, of x1 y1] ih A x1 by simp
    qed
  qed
qed

lemma model_pattern_nb: "name_ok X \<Longrightarrow> list_all atom_nb (model_pattern X)"
  using hdr_no_brace[of X]
  by (auto simp: model_pattern_def lits_def plus_of_def marker_def list_all_iff not_brace_def
      is_space_def)

lemma relation_pattern_nb: "name_ok X \<Longrightarrow> list_all atom_nb (relation_pattern X)"
  using hdr_no_brace[of X]
  by (auto simp: relation_pattern_def lits_def plus_of_def marker_def list_all_iff not_brace_def
      is_space_def ident_start_def ident_char_def is_letter_def is_digit_def)

lemma model_pattern_groups: "model_pattern X = model_group1 X @ Mark # model_group2"
  by (simp add: model_pattern_def model_group1_def model_group2_def)

lemma relation_pattern_groups: "relation_pattern X = relation_group1 X @ Mark # relation_group2"
  by (simp add: relation_pattern_def relation_group1_def relation_group2_def)

lemma den_lits_only: "den (lits h) w = (w = h)"
  using den_lits[of h "[]" w] by simp

lemma den_lits_I: "den p v \<Longrightarrow> den (lits h @ p) (h @ v)"
  by (simp add: den_lits)

lemma den_Lazy_I: "list_all P u \<Longrightarrow> den p v \<Longrightarrow> den ([Lazy P] @ p) (u @ v)"
  by auto

lemma den_Greedy_I: "list_all P u \<Longrightarrow> den p v \<Longrightarrow> den ([Greedy P] @ p) (u @ v)"
  by auto

lemma den_One_I: "P x \<Longrightarrow> den p v \<Longrightarrow> den ([One P] @ p) (x # v)"
  by auto

lemma den_plus_I:
  "w \<noteq> [] \<Longrightarrow> list_all P w \<Longrightarrow> den p v \<Longrightarrow> den (plus_of P @ p) (w @ v)"
  by (cases w) (auto simp: plus_of_def)

lemma den_Lazy_end: "list_all P u \<Longrightarrow> den [Lazy P] u"
  by simp

lemma den_model_group1:
  "den (model_group1 X) a =
     (\<exists>c1 w1 c2. a = hdr X @ c1 @ ''createdById'' @ w1 @ ''String'' @ c2 \<and>
        list_all not_brace c1 \<and> w1 \<noteq> [] \<and> list_all is_space w1 \<and> list_all not_brace c2)"
  (is "?L = ?R")
proof
  assume ?L
  then obtain c1 x w c2 where "a = hdr X @ c1 @ ''createdById'' @ (x # w) @ ''String'' @ c2"
    "list_all not_brace c1" "is_space x" "list_all is_space w" "list_all not_brace c2"
    unfolding model_group1_def plus_of_def
    by (auto simp: den_lits simp del: append_assoc)
  then show ?R by (intro exI[of _ c1] exI[of _ "x # w"] exI[of _ c2]) simp
next
  assume ?R
  then obtain c1 w1 c2 where a: "a = hdr X @ c1 @ ''createdById'' @ w1 @ ''String'' @ c2"
    and c: "list_all not_brace c1" "w1 \<noteq> []" "list_all is_space w1" "list_all not_brace c2"
    by blast
  have "den (lits (hdr X) @ [Lazy not_brace] @ lits ''createdById'' @ plus_of is_space @
      lits ''String'' @ [Lazy not_brace]) (hdr X @ c1 @ ''createdById'' @ w1 @ ''String'' @ c2)"
    by (intro den_lits_I den_Lazy_I den_plus_I den_Lazy_end c)
  then show ?L unfolding model_group1_def a .
qed

lemma den_model_group2:
  "den model_group2 b = (\<exists>w. b = w @ marker \<and> w \<noteq> [] \<and> list_all is_space w)"
  (is "?L = ?R")
proof
  assume ?L
  then obtain x w where "b = (x # w) @ marker" "is_space x" "list_all is_space w"
    unfolding model_group2_def plus_of_def
    by (auto simp: den_lits_only)
  then show ?R by (intro exI[of _ "x # w"]) simp
next
  assume ?R
  then obtain w where "b = w @ marker" "w \<noteq> []" "list_all is_space w" by blast
  then show ?L unfolding model_group2_def
    using den_plus_I[of w is_space "lits marker" marker] by (simp add: den_lits_only)
qed

lemma den_relation_group1:
  "den (relation_group1 X) a =
     (\<exists>c1 c2 c3. a = hdr X @ c1 @ marker @ c2 @ ''createdBy'' @ c3 \<and>
        list_all not_brace c1 \<and> list_all not_brace c2 \<and> list_all not_brace c3)"
  (is "?L = ?R")
proof
  assume ?L
  then show ?R
    unfolding relation_group1_def
    by (auto simp: den_lits simp del: append_assoc)
next
  assume ?R
  then obtain c1 c2 c3 where a: "a = hdr X @ c1 @ marker @ c2 @ ''createdBy'' @ c3"
    and c: "list_all not_brace c1" "list_all not_brace c2" "list_all not_brace c3"
    by blast
  have "den (lits (hdr X) @ [Lazy not_brace] @ lits marker @ [Lazy not_brace] @
      lits ''createdBy'' @ [Lazy not_brace]) (hdr X @ c1 @ marker @ c2 @ ''createdBy'' @ c3)"
    by (intro den_lits_I den_Lazy_I den_Lazy_end c)
  then show ?L unfolding relation_group1_def a .
qed

lemma den_relation_group2:
  "den relation_group2 b =
     (\<exists>w1 i n w2 c. b = w1 @ (i # n) @ w2 @ c @ ''[]'' \<and>
        w1 \<noteq> [] \<and> list_all is_space w1 \<and> ident_start i \<and> list_all ident_char n \<and>
        w2 \<noteq> [] \<and> list_all is_space w2 \<and> list_all not_brace c)"
  (is "?L = ?R")
proof
  assume ?L
  then obtain x w i n y v c where "b = (x # w) @ (i # n) @ (y # v) @ c @ ''[]''"
    "is_space x" "list_all is_space w" "ident_start i" "list_all ident_char n"
    "is_space y" "list_all is_space v" "list_all not_brace c"
    unfolding relation_group2_def plus_of_def
    by (auto simp: den_lits_only)
  then show ?R
    by (intro exI[of _ "x # w"] exI[of _ i] exI[of _ n] exI[of _ "y # v"] exI[of _ c]) simp
next
  assume ?R
  then obtain w1 i n w2 c where b: "b = w1 @ (i # n) @ w2 @ c @ ''[]''"
    and c: "w1 \<noteq> []" "list_all is_space w1" "ident_start i" "list_all ident_char n"
      "w2 \<noteq> []" "list_all is_space w2" "list_all not_brace c"
    by blast
  have "den (lits ''[]'') ''[]''" by (simp add: den_lits_only)
  then have "den (plus_of is_space @ [One ident_start] @ [Greedy ident_char] @
      plus_of is_space @ [Lazy not_brace] @ lits ''[]'') (w1 @ i # n @ w2 @ c @ ''[]'')"
    by (intro den_plus_I den_One_I den_Greedy_I den_Lazy_I c)
  then show ?L unfolding relation_group2_def b by simp
qed

lemma model_pattern_hdr: "\<exists>q. model_pattern X = lits (hdr X) @ q"
  by (simp add: model_pattern_def)

lemma relation_pattern_hdr: "\<exists>q. relation_pattern X = lits (hdr X) @ q"
  by (simp add: relation_pattern_def)

lemma field_brace:
  "name_ok X \<Longrightarrow>
   field_pass X (A @ CHR ''}'' # B) = field_pass X A @ CHR ''}'' # field_pass X B"
  using model_pattern_hdr[of X] model_pattern_nb[of X] sub_brace_h[OF hdr_not_Nil]
  unfolding field_pass_def by metis

lemma relation_brace:
  "name_ok X \<Longrightarrow>
   relation_pass X (A @ CHR ''}'' # B) = relation_pass X A @ CHR ''}'' # relation_pass X B"
  using relation_pattern_hdr[of X] relation_pattern_nb[of X] sub_brace_h[OF hdr_not_Nil]
  unfolding relation_pass_def by metis

lemma pass_Nil [simp]:
  "field_pass X [] = []" "relation_pass X [] = []" "index_pass X [] = []"
  by (simp_all add: field_pass_def relation_pass_def index_pass_def model_pattern_def
      relation_pattern_def index_pattern_def sub_Nil_h hdr_not_Nil)

lemma add_Nil [simp]: "add_organization_id_to_model [] X = []"
  by (simp add: add_organization_id_to_model_def)

lemma field_no_brace: "CHR ''}'' \<notin> set s \<Longrightarrow> CHR ''}'' \<notin> set (field_pass X s)"
  using sub_set[of "model_pattern X" replacement s]
  by (auto simp: field_pass_def replacement_def)

lemma relation_no_brace: "CHR ''}'' \<notin> set s \<Longrightarrow> CHR ''}'' \<notin> set (relation_pass X s)"
  using sub_set[of "relation_pattern X" org_relation s]
  by (auto simp: relation_pass_def org_relation_def)

lemma field_survives: "sublist (hdr X) s \<Longrightarrow> sublist (hdr X) (field_pass X s)"
  using model_pattern_hdr[of X] header_survives[OF hdr_not_Nil]
  unfolding field_pass_def by metis

lemma relation_survives: "sublist (hdr X) s \<Longrightarrow> sublist (hdr X) (relation_pass X s)"
  using relation_pattern_hdr[of X] header_survives[OF hdr_not_Nil]
  unfolding relation_pass_def by metis

lemma no_Mark:
  "Mark \<notin> set (model_group1 X)" "Mark \<notin> set model_group2"
  "Mark \<notin> set (relation_group1 X)" "Mark \<notin> set relation_group2"
  by (auto simp: model_group1_def model_group2_def relation_group1_def relation_group2_def
      lits_def plus_of_def)

lemma field_sound:
  "bt (model_pattern X) t = Some (a, b, r) \<Longrightarrow>
   den (model_group1 X) a \<and> den model_group2 b \<and> t = a @ b @ r"
  unfolding model_pattern_groups by (rule bt_sound[OF _ no_Mark(1,2)])

lemma relation_sound:
  "bt (relation_pattern X) t = Some (a, b, r) \<Longrightarrow>
   den (relation_group1 X) a \<and> den relation_group2 b \<and> t = a @ b @ r"
  unfolding relation_pattern_groups by (rule bt_sound[OF _ no_Mark(3,4)])

text \<open>A match of the field pattern holds both anchors, one of the relation pattern too.\<close>

lemma field_match_anchors:
  assumes "bt (model_pattern X) t = Some (a, b, r)"
  shows "sublist ''createdById'' t \<and> sublist marker t"
proof -
  from field_sound[OF assms]
  have a: "den (model_group1 X) a" and b: "den model_group2 b" and t: "t = a @ b @ r"
    by simp_all
  from a obtain c1 w1 c2 where "a = hdr X @ c1 @ ''createdById'' @ w1 @ ''String'' @ c2"
    unfolding den_model_group1 by blast
  then have "t = (hdr X @ c1) @ ''createdById'' @ (w1 @ ''String'' @ c2 @ b @ r)"
    using t by simp
  then have 1: "sublist ''createdById'' t" unfolding sublist_def by blast
  from b obtain w where "b = w @ marker" unfolding den_model_group2 by blast
  then have "t = (a @ w) @ marker @ r" using t by simp
  then have "sublist marker t" unfolding sublist_def by blast
  then show ?thesis using 1 by simp
qed

lemma relation_match_anchors:
  assumes "bt (relation_pattern X) t = Some (a, b, r)"
  shows "sublist ''createdBy'' t \<and> sublist marker t"
proof -
  from relation_sound[OF assms]
  have a: "den (relation_group1 X) a" and t: "t = a @ b @ r"
    by simp_all
  from a obtain c1 c2 c3 where a': "a = hdr X @ c1 @ marker @ c2 @ ''createdBy'' @ c3"
    unfolding den_relation_group1 by blast
  have "t = (hdr X @ c1 @ marker @ c2) @ ''createdBy'' @ (c3 @ b @ r)"
    using t a' by simp
  then have 1: "sublist ''createdBy'' t" unfolding sublist_def by blast
  have "t = (hdr X @ c1) @ marker @ (c2 @ ''createdBy'' @ c3 @ b @ r)"
    using t a' by simp
  then have "sublist marker t" unfolding sublist_def by blast
  then show ?thesis using 1 by simp
qed

lemma createdBy_in_Id: "sublist ''createdBy'' ''createdById''"
proof -
  have "''createdById'' = [] @ ''createdBy'' @ ''Id''" by simp
  then show ?thesis unfolding sublist_def by blast
qed

lemma field_no_anchor:
  assumes "\<not> sublist ''createdBy'' s \<or> \<not> sublist marker s"
  shows "field_pass X s = s"
  unfolding field_pass_def
proof (rule sub_id)
  fix t assume t: "suffix t s"
  show "bt (model_pattern X) t = None"
  proof (rule ccontr)
    assume "bt (model_pattern X) t \<noteq> None"
    then obtain a b r where "bt (model_pattern X) t = Some (a, b, r)" by auto
    from field_match_anchors[OF this]
    have "sublist ''createdBy'' t \<and> sublist marker t"
      using createdBy_in_Id sublist_order.order_trans by blast
    then have "sublist ''createdBy'' s \<and> sublist marker s"
      using t suffix_imp_sublist sublist_order.order_trans by blast
    then show False using assms by blast
  qed
qed

lemma relation_no_anchor:
  assumes "\<not> sublist ''createdBy'' s \<or> \<not> sublist marker s"
  shows "relation_pass X s = s"
  unfolding relation_pass_def
proof (rule sub_id)
  fix t assume t: "suffix t s"
  show "bt (relation_pattern X) t = None"
  proof (rule ccontr)
    assume "bt (relation_pattern X) t \<noteq> None"
    then obtain a b r where "bt (relation_pattern X) t = Some (a, b, r)" by auto
    from relation_match_anchors[OF this]
    have "sublist ''createdBy'' s \<and> sublist marker s"
      using t suffix_imp_sublist sublist_order.order_trans by blast
    then show False using assms by blast
  qed
qed

text \<open>
  The rewrite, one brace-delimited stretch at a time: behind a closing brace (or at the
  start) a brace-free stretch that holds the header gets the index annotation before its
  closing brace, whatever the first two passes make of it.
\<close>

lemma add_stretch:
  assumes X: "name_ok X" and P: "P = [] \<or> last P = CHR ''}''"
    and seg: "CHR ''}'' \<notin> set seg" and h: "sublist (hdr X) seg"
  shows "add_organization_id_to_model (P @ seg @ CHR ''}'' # post) X =
     add_organization_id_to_model P X @ relation_pass X (field_pass X seg) @
     index_replacement @ CHR ''}'' # add_organization_id_to_model post X"
proof -
  let ?s2 = "relation_pass X (field_pass X seg)"
  have nb: "CHR ''}'' \<notin> set ?s2" using seg field_no_brace relation_no_brace by blast
  have "sublist (hdr X) ?s2" using h field_survives relation_survives by blast
  then obtain x1 y1 where s2: "?s2 = x1 @ hdr X @ y1" by (auto simp: sublist_def)
  then have x1: "CHR ''}'' \<notin> set x1" and y1: "CHR ''}'' \<notin> set y1"
    using nb by (metis Un_iff set_append)+
  have idx: "index_pass X (?s2 @ CHR ''}'' # Q) =
      ?s2 @ index_replacement @ CHR ''}'' # index_pass X Q" for Q
    using index_seg[OF X x1 y1, of Q] s2 by simp
  show ?thesis
  proof (cases "P = []")
    case True
    then show ?thesis
      using idx by (simp add: add_organization_id_to_model_def field_brace[OF X]
          relation_brace[OF X])
  next
    case False
    then obtain P' where P': "P = P' @ ''}''" using P by (metis append_butlast_last_id)
    have "add_organization_id_to_model (P @ seg @ CHR ''}'' # post) X =
        index_pass X (relation_pass X (field_pass X P') @ CHR ''}'' #
          (?s2 @ CHR ''}'' # relation_pass X (field_pass X post)))"
      by (simp add: P' add_organization_id_to_model_def field_brace[OF X] relation_brace[OF X])
    also have "\<dots> = index_pass X (relation_pass X (field_pass X P') @ ''}'') @
        index_pass X (?s2 @ CHR ''}'' # relation_pass X (field_pass X post))"
      by (rule index_brace[OF X])
    also have "index_pass X (relation_pass X (field_pass X P') @ ''}'') =
        add_organization_id_to_model P X"
      by (simp add: P' add_organization_id_to_model_def field_brace[OF X] relation_brace[OF X])
    finally show ?thesis using idx by (simp add: add_organization_id_to_model_def)
  qed
qed

text \<open>Every string splits behind its last closing brace.\<close>

lemma last_brace:
  "\<exists>P g. s = P @ g \<and> (P = [] \<or> last P = CHR ''}'') \<and> CHR ''}'' \<notin> set g"
proof (cases "CHR ''}'' \<in> set s")
  case False
  then show ?thesis by (intro exI[of _ "[]"] exI[of _ s]) simp
next
  case True
  from split_list_last[OF this] obtain ys zs where "s = ys @ CHR ''}'' # zs" "CHR ''}'' \<notin> set zs"
    by blast
  then show ?thesis by (intro exI[of _ "ys @ ''}''"] exI[of _ zs]) simp
qed

lemma field_stretch:
  assumes X: "name_ok X" and P: "P = [] \<or> last P = CHR ''}''"
  shows "field_pass X (P @ seg @ CHR ''}'' # post) =
         field_pass X P @ field_pass X seg @ CHR ''}'' # field_pass X post"
proof (cases "P = []")
  case True
  then show ?thesis by (simp add: field_brace[OF X])
next
  case False
  then obtain P' where "P = P' @ ''}''" using P by (metis append_butlast_last_id)
  then show ?thesis by (simp add: field_brace[OF X])
qed

lemma relation_stretch:
  assumes X: "name_ok X" and P: "P = [] \<or> last P = CHR ''}''"
  shows "relation_pass X (P @ seg @ CHR ''}'' # post) =
         relation_pass X P @ relation_pass X seg @ CHR ''}'' # relation_pass X post"
proof (cases "P = []")
  case True
  then show ?thesis by (simp add: relation_brace[OF X])
next
  case False
  then obtain P' where "P = P' @ ''}''" using P by (metis append_butlast_last_id)
  then show ?thesis by (simp add: relation_brace[OF X])
qed

lemma brace_free_tail:
  assumes "pre @ t = P @ g" and "P = [] \<or> last P = CHR ''}''" and "CHR ''}'' \<notin> set t"
  shows "\<exists>us. g = us @ t"
proof -
  from assms(1) have "(\<exists>us. pre = P @ us \<and> us @ t = g) \<or> (\<exists>us. pre @ us = P \<and> t = us @ g)"
    by (auto simp: append_eq_append_conv2)
  then show ?thesis
  proof
    assume "\<exists>us. pre = P @ us \<and> us @ t = g"
    then show ?thesis by blast
  next
    assume "\<exists>us. pre @ us = P \<and> t = us @ g"
    then obtain us where us: "pre @ us = P" "t = us @ g" by blast
    show ?thesis
    proof (cases "us = []")
      case True
      then show ?thesis using us by (intro exI[of _ "[]"]) simp
    next
      case False
      then have "last P = last us" "P \<noteq> []" using us by auto
      then have "CHR ''}'' \<in> set us" using assms(2) False last_in_set by metis
      then show ?thesis using assms(3) us(2) by simp
    qed
  qed
qed



subsection \<open>A block with its anchors\<close>

text \<open>
  The first block of a model in a document, with the anchors the patterns ask for:
  where the scan starts to match, where the lazy stars stop, and what the three
  passes make of the block.
\<close>

lemma prefix_in_front:
  assumes "prefix h (pre @ h @ rest)" and "pre \<noteq> []"
  shows "sublist h (pre @ butlast h)"
proof (cases "h = []")
  case True
  then show ?thesis by simp
next
  case False
  then have h: "h = butlast h @ [last h]" by simp
  have "prefix h ((pre @ butlast h) @ (last h # rest))"
    using assms(1) h by (metis append.assoc append_Cons append_Nil)
  then have "prefix h (pre @ butlast h) \<or>
      (\<exists>us. h = (pre @ butlast h) @ us \<and> prefix us (last h # rest))"
    unfolding prefix_append[of h "pre @ butlast h"] by simp
  moreover have "prefix h (pre @ butlast h)" if "h = (pre @ butlast h) @ us" for us
  proof -
    have "length h = length pre + length (butlast h) + length us" using that
      by (metis append.assoc length_append)
    moreover have "length (butlast h) = length h - 1" by simp
    moreover have "0 < length h" "0 < length pre" using False assms(2) by simp_all
    ultimately have "length us = 0" by arith
    then have "us = []" by simp
    then show ?thesis using that by simp
  qed
  ultimately have "prefix h (pre @ butlast h)" by blast
  then show ?thesis by (rule prefix_imp_sublist)
qed

text \<open>The scan passes over a text in front of the first header.\<close>

lemma sub_skip:
  assumes "h \<noteq> []" and "\<not> sublist h (pre @ butlast h)"
  shows "sub (lits h @ q) ins (pre @ h @ rest) = pre @ sub (lits h @ q) ins (h @ rest)"
  using assms(2)
proof (induction pre)
  case Nil
  then show ?case by simp
next
  case (Cons c pre)
  have "bt (lits h @ q) ((c # pre) @ h @ rest) = None"
  proof (rule ccontr)
    assume "bt (lits h @ q) ((c # pre) @ h @ rest) \<noteq> None"
    then have "prefix h ((c # pre) @ h @ rest)" using bt_lits_prefix by blast
    then have "sublist h ((c # pre) @ butlast h)" by (rule prefix_in_front) simp
    then show False using Cons.prems by simp
  qed
  moreover have "\<not> sublist h (pre @ butlast h)"
    using Cons.prems by (simp add: sublist_Cons_right)
  ultimately show ?case using Cons.IH by (simp add: sub_None_Cons)
qed

text \<open>A text that occurs once splits the string around it in one way.\<close>

lemma unique_occ:
  assumes eq: "B @ m @ c = B' @ m @ c'"
    and l: "\<not> sublist m (B @ butlast m)" and r: "\<not> sublist m (tl m @ c)"
  shows "B = B' \<and> c = c'"
proof -
  have m: "m \<noteq> []" using l by auto
  from eq[unfolded append_eq_append_conv2[of B "m @ c" B' "m @ c'"]]
  have "(\<exists>us. B = B' @ us \<and> us @ m @ c = m @ c') \<or>
      (\<exists>us. B @ us = B' \<and> m @ c = us @ m @ c')"
    by blast
  then show ?thesis
  proof
    assume "\<exists>us. B = B' @ us \<and> us @ m @ c = m @ c'"
    then obtain us where us: "B = B' @ us" "us @ m @ c = m @ c'" by blast
    show ?thesis
    proof (cases "us = []")
      case True
      then show ?thesis using us by simp
    next
      case False
      have "prefix m (us @ m @ c)" using us(2) by (simp add: prefix_def)
      then have "sublist m (us @ butlast m)" using False by (rule prefix_in_front)
      then have "sublist m (B' @ us @ butlast m)" by (simp add: sublist_append)
      then show ?thesis using l us(1) by simp
    qed
  next
    assume "\<exists>us. B @ us = B' \<and> m @ c = us @ m @ c'"
    then obtain us where us: "B @ us = B'" "m @ c = us @ m @ c'" by blast
    show ?thesis
    proof (cases "us = []")
      case True
      then show ?thesis using us by simp
    next
      case False
      then have "tl (m @ c) = tl us @ m @ c'" using us(2) by (cases us) auto
      then have "tl m @ c = tl us @ m @ c'" using m by (cases m) auto
      then have "sublist m (tl m @ c)" unfolding sublist_def by blast
      then show ?thesis using r by simp
    qed
  qed
qed

lemma hdr_no_newline: "name_ok X \<Longrightarrow> CHR 0x0A \<notin> set (hdr X)"
  by (auto simp: name_ok_def hdr_def list_all_iff ident_char_def is_letter_def is_digit_def Let_def)

text \<open>The inserted lines bring no new header into the text.\<close>

lemma no_new_header:
  assumes X: "name_ok X"
    and mo: "\<not> sublist ''mo'' ins'" and lst: "ins' = [] \<or> last ins' \<noteq> CHR ''m''"
    and uv: "\<not> sublist (hdr X) (u @ v)"
  shows "\<not> sublist (hdr X) (u @ (CHR 0x0A # ins') @ v)"
proof
  let ?h = "hdr X"
  assume s: "sublist ?h (u @ (CHR 0x0A # ins') @ v)"
  have nu: "\<not> sublist ?h u" and nv: "\<not> sublist ?h v"
    using uv by (auto simp: sublist_append)
  have nl: "CHR 0x0A \<notin> set ?h" by (rule hdr_no_newline[OF X])
  have hmo: "\<exists>t. ?h = ''mo'' @ t" by (simp add: hdr_def)
  have ni: "\<not> sublist ?h ins'"
    using mo hdr_mo[of X] sublist_order.order_trans by blast
  from s have "sublist ?h (CHR 0x0A # ins' @ v) \<or>
      (\<exists>xs1 xs2. ?h = xs1 @ xs2 \<and> suffix xs1 u \<and> prefix xs2 (CHR 0x0A # ins' @ v))"
    using nu by (auto simp: sublist_append)
  then show False
  proof
    assume "sublist ?h (CHR 0x0A # ins' @ v)"
    then have "prefix ?h (CHR 0x0A # ins' @ v) \<or> sublist ?h (ins' @ v)"
      by (simp add: sublist_Cons_right)
    then show False
    proof
      assume "prefix ?h (CHR 0x0A # ins' @ v)"
      then show False using nl hdr_not_Nil[of X] by (cases ?h) (auto simp: prefix_Cons)
    next
      assume "sublist ?h (ins' @ v)"
      then obtain xs1 xs2 where x: "?h = xs1 @ xs2" "suffix xs1 ins'" "prefix xs2 v"
        using ni nv by (auto simp: sublist_append)
      show False
      proof (cases xs1)
        case Nil
        then show False using x nv by auto
      next
        case (Cons a xs1')
        then have a: "a = CHR ''m''" using x(1) by (simp add: hdr_def)
        show False
        proof (cases xs1')
          case Nil
          then have "ins' \<noteq> [] \<and> last ins' = CHR ''m''"
            using x(2) Cons a by (auto simp: suffix_def)
          then show False using lst by simp
        next
          case (Cons b xs1'')
          then have "b = CHR ''o''" using x(1) \<open>xs1 = a # xs1'\<close> by (simp add: hdr_def)
          then have "prefix ''mo'' xs1" using a Cons \<open>xs1 = a # xs1'\<close> by simp
          then have "sublist ''mo'' xs1" by (rule prefix_imp_sublist)
          then have "sublist ''mo'' ins'"
            using x(2) suffix_imp_sublist sublist_order.order_trans by blast
          then show False using mo by simp
        qed
      qed
    qed
  next
    assume "\<exists>xs1 xs2. ?h = xs1 @ xs2 \<and> suffix xs1 u \<and> prefix xs2 (CHR 0x0A # ins' @ v)"
    then obtain xs1 xs2 where x: "?h = xs1 @ xs2" "suffix xs1 u"
      "prefix xs2 (CHR 0x0A # ins' @ v)" by blast
    show False
    proof (cases xs2)
      case Nil
      then show False using x nu by auto
    next
      case (Cons a xs2')
      then have "a = CHR 0x0A" using x(3) by simp
      then show False using nl x(1) Cons by simp
    qed
  qed
qed

lemma replacement_safe:
  "\<exists>ins'. replacement = CHR 0x0A # ins' \<and> \<not> sublist ''mo'' ins' \<and>
     (ins' = [] \<or> last ins' \<noteq> CHR ''m'')"
proof -
  have "\<not> sublist ''mo'' (tl replacement) \<and> last (tl replacement) \<noteq> CHR ''m''" by code_simp
  then show ?thesis by (simp add: replacement_def)
qed

lemma org_relation_safe:
  "\<exists>ins'. org_relation = CHR 0x0A # ins' \<and> \<not> sublist ''mo'' ins' \<and>
     (ins' = [] \<or> last ins' \<noteq> CHR ''m'')"
proof -
  have "\<not> sublist ''mo'' (tl org_relation) \<and> last (tl org_relation) \<noteq> CHR ''m''" by code_simp
  then show ?thesis by (simp add: org_relation_def)
qed

lemma field_line_no_header:
  "name_ok X \<Longrightarrow> \<not> sublist (hdr X) (u @ v) \<Longrightarrow> \<not> sublist (hdr X) (u @ replacement @ v)"
  using replacement_safe no_new_header by metis

lemma relation_line_no_header:
  "name_ok X \<Longrightarrow> \<not> sublist (hdr X) (u @ v) \<Longrightarrow> \<not> sublist (hdr X) (u @ org_relation @ v)"
  using org_relation_safe no_new_header by metis

text \<open>A lazy star stops at the first place from which the rest of the pattern matches.\<close>

lemma lazy_first:
  "bt (Lazy P # p) s = Some (a, b, r) \<Longrightarrow>
   \<exists>u t a'. s = u @ t \<and> list_all P u \<and> bt p t = Some (a', b, r) \<and> a = u @ a' \<and>
     (\<forall>u1 u2. u = u1 @ u2 \<and> u2 \<noteq> [] \<longrightarrow> bt p (u2 @ t) = None)"
proof (induction s arbitrary: a)
  case Nil
  then have "bt p [] = Some (a, b, r)" by (auto split: option.splits)
  then show ?case by (intro exI[of _ "[]"] exI[of _ a]) simp
next
  case (Cons x s)
  show ?case
  proof (cases "bt p (x # s)")
    case (Some res)
    then have "bt p (x # s) = Some (a, b, r)" using Cons.prems by simp
    then show ?thesis by (intro exI[of _ "[]"] exI[of _ "x # s"] exI[of _ a]) simp
  next
    case None
    then obtain a0 where Px: "P x" and b0: "bt (Lazy P # p) s = Some (a0, b, r)"
      and a: "a = x # a0"
      using Cons.prems by (auto split: if_splits option.splits)
    from Cons.IH[OF b0] obtain u t a' where
      u: "s = u @ t" "list_all P u" "bt p t = Some (a', b, r)" "a0 = u @ a'"
      and mn: "\<forall>u1 u2. u = u1 @ u2 \<and> u2 \<noteq> [] \<longrightarrow> bt p (u2 @ t) = None" by blast
    have "\<forall>u1 u2. x # u = u1 @ u2 \<and> u2 \<noteq> [] \<longrightarrow> bt p (u2 @ t) = None"
    proof (intro allI impI)
      fix u1 u2 assume h: "x # u = u1 @ u2 \<and> u2 \<noteq> []"
      show "bt p (u2 @ t) = None"
      proof (cases u1)
        case Nil
        then have "u2 @ t = x # s" using h u(1) by simp
        then show ?thesis using None by simp
      next
        case (Cons y u1')
        then show ?thesis using h mn by simp
      qed
    qed
    then have "x # s = (x # u) @ t \<and> list_all P (x # u) \<and> bt p t = Some (a', b, r) \<and>
        a = (x # u) @ a' \<and> (\<forall>u1 u2. x # u = u1 @ u2 \<and> u2 \<noteq> [] \<longrightarrow> bt p (u2 @ t) = None)"
      using u a Px by simp
    then show ?thesis by blast
  qed
qed

lemma model_pattern_front:
  "model_pattern X = model_front X @ Lazy not_brace # Mark # model_group2"
  by (simp add: model_pattern_def model_front_def model_group2_def)

lemma model_front_no_Mark: "Mark \<notin> set (model_front X)"
  by (auto simp: model_front_def lits_def plus_of_def)

lemma den_model_front:
  "den (model_front X) a \<Longrightarrow>
   \<exists>c1 w1. a = hdr X @ c1 @ ''createdById'' @ w1 @ ''String'' \<and> list_all not_brace c1 \<and>
     list_all is_space w1"
proof -
  assume "den (model_front X) a"
  then obtain c1 x w where "a = hdr X @ c1 @ ''createdById'' @ (x # w) @ ''String''"
    "list_all not_brace c1" "is_space x" "list_all is_space w"
    unfolding model_front_def plus_of_def
    by (auto simp: den_lits den_lits_only simp del: append_assoc)
  then show ?thesis by (intro exI[of _ c1] exI[of _ "x # w"]) simp
qed

lemma space_not_brace: "is_space c \<Longrightarrow> not_brace c"
  by (auto simp: is_space_def not_brace_def)

lemma spaces_not_brace: "list_all is_space w \<Longrightarrow> list_all not_brace w"
  by (induction w) (simp_all add: space_not_brace)

lemma not_brace_set: "list_all not_brace w = (CHR ''}'' \<notin> set w)"
  by (induction w) (auto simp: not_brace_def)

text \<open>
  The shape of a match of the field pattern: group 1 is the header and a brace-free text
  that ends in a non-blank character, group 2 is blank space and the marker.
\<close>

lemma field_match_shape:
  assumes "bt (model_pattern X) s = Some (a, b, r)"
  shows "\<exists>u ws. a = hdr X @ u \<and> b = ws @ marker \<and> s = a @ b @ r \<and> ws \<noteq> [] \<and>
     list_all is_space ws \<and> list_all not_brace u \<and> u \<noteq> [] \<and> \<not> is_space (last u)"
proof -
  from bt_peel[OF assms model_pattern_front model_front_no_Mark] obtain u0 t a' where
    s: "s = u0 @ t" and u0: "den (model_front X) u0"
    and t: "bt (Lazy not_brace # Mark # model_group2) t = Some (a', b, r)" and a: "a = u0 @ a'"
    by blast
  from den_model_front[OF u0] obtain c1 w1 where
    u0': "u0 = hdr X @ c1 @ ''createdById'' @ w1 @ ''String''"
    and c1: "list_all not_brace c1" and w1: "list_all is_space w1" by blast
  from lazy_first[OF t] obtain u t' a'' where
    t': "t = u @ t'" and u: "list_all not_brace u"
    and m: "bt (Mark # model_group2) t' = Some (a'', b, r)" and a': "a' = u @ a''"
    and mn: "\<forall>u1 u2. u = u1 @ u2 \<and> u2 \<noteq> [] \<longrightarrow> bt (Mark # model_group2) (u2 @ t') = None"
    by blast
  from bt_Mark_sound[OF m no_Mark(2)] have a'': "a'' = []" and b: "den model_group2 b"
    and tb: "t' = b @ r" by simp_all
  from b obtain ws where ws: "b = ws @ marker" "ws \<noteq> []" "list_all is_space ws"
    unfolding den_model_group2 by blast
  let ?U = "c1 @ ''createdById'' @ w1 @ ''String'' @ u"
  have aU: "a = hdr X @ ?U" using a a' a'' u0' by simp
  have nbU: "list_all not_brace ?U"
    using c1 u spaces_not_brace[OF w1] by (simp add: not_brace_def)
  have lastU: "\<not> is_space (last ?U)"
  proof (cases "u = []")
    case True
    then show ?thesis by (simp add: is_space_def)
  next
    case False
    then obtain u1 x where ux: "u = u1 @ [x]" by (metis append_butlast_last_id)
    have "\<not> is_space x"
    proof
      assume x: "is_space x"
      have "den model_group2 ((x # ws) @ marker)"
        unfolding den_model_group2 by (intro exI[of _ "x # ws"]) (simp add: x ws)
      then have "den (Mark # model_group2) ((x # ws) @ marker)" by simp
      then have "bt (Mark # model_group2) (((x # ws) @ marker) @ r) \<noteq> None"
        by (rule bt_complete)
      moreover have "bt (Mark # model_group2) ([x] @ t') = None" using mn ux by blast
      ultimately show False using tb ws(1) by simp
    qed
    then show ?thesis using ux by simp
  qed
  have sab: "s = a @ b @ r" using s t' tb a a' a'' by simp
  have U0: "?U \<noteq> []" by simp
  show ?thesis
    by (intro exI[of _ ?U] exI[of _ ws] conjI aU ws sab nbU U0 lastU)
qed

lemma field_block:
  assumes X: "name_ok X"
    and first: "\<not> sublist (hdr X) (pre @ butlast (hdr X))"
    and nb: "CHR ''}'' \<notin> set (b1 @ b2 @ b3)"
    and ws1: "ws1 \<noteq> []" "list_all is_space ws1"
    and ws2: "ws2 \<noteq> []" "list_all is_space ws2"
    and once: "\<not> sublist marker
        (b1 @ ''createdById'' @ ws1 @ ''String'' @ b2 @ ws2 @ butlast marker)"
      "\<not> sublist marker (tl marker @ b3)"
  shows "\<exists>u ws. b1 @ ''createdById'' @ ws1 @ ''String'' @ b2 @ ws2 = u @ ws \<and>
     ws \<noteq> [] \<and> list_all is_space ws \<and> u \<noteq> [] \<and> \<not> is_space (last u) \<and>
     field_pass X
       (pre @ hdr X @ b1 @ ''createdById'' @ ws1 @ ''String'' @ b2 @ ws2 @ marker @ b3 @
        ''}'' @ post) =
     pre @ hdr X @ u @ replacement @ ws @ marker @ field_pass X (b3 @ ''}'' @ post)"
proof -
  let ?B = "b1 @ ''createdById'' @ ws1 @ ''String'' @ b2 @ ws2"
  let ?body = "?B @ marker @ b3"
  let ?s = "hdr X @ ?body @ ''}'' @ post"
  obtain q where q: "model_pattern X = lits (hdr X) @ q" using model_pattern_hdr by blast
  have skip: "field_pass X (pre @ ?s) = pre @ field_pass X ?s"
    unfolding field_pass_def q using sub_skip[OF hdr_not_Nil first] by simp
  have b12: "list_all not_brace b1" "list_all not_brace b2" using nb by (simp_all add: not_brace_set)
  have "den (model_group1 X) (hdr X @ b1 @ ''createdById'' @ ws1 @ ''String'' @ b2)"
    unfolding den_model_group1 using b12 ws1 by blast
  moreover have "den (Mark # model_group2) (ws2 @ marker)"
    unfolding den.simps den_model_group2 using ws2 by blast
  ultimately have "den (model_pattern X)
      ((hdr X @ b1 @ ''createdById'' @ ws1 @ ''String'' @ b2) @ (ws2 @ marker))"
    unfolding model_pattern_groups den_append[OF no_Mark(1)] by blast
  then have "bt (model_pattern X)
      (((hdr X @ b1 @ ''createdById'' @ ws1 @ ''String'' @ b2) @ (ws2 @ marker)) @
       (b3 @ ''}'' @ post)) \<noteq> None"
    by (rule bt_complete)
  then obtain a b r where m: "bt (model_pattern X) ?s = Some (a, b, r)" by auto
  from field_match_shape[OF m] obtain u ws where
    a: "a = hdr X @ u" and b: "b = ws @ marker" and s: "?s = a @ b @ r"
    and ws: "ws \<noteq> []" "list_all is_space ws"
    and u: "list_all not_brace u" "u \<noteq> []" "\<not> is_space (last u)" by blast
  have eq: "?body @ CHR ''}'' # post = (u @ ws @ marker) @ r" using s a b by simp
  have nbm: "CHR ''}'' \<notin> set (u @ ws @ marker)"
    using u(1) spaces_not_brace[OF ws(2)] by (simp add: not_brace_set marker_def)
  have "prefix (u @ ws @ marker) (?body @ CHR ''}'' # post)" using eq by (simp add: prefix_def)
  then have "prefix (u @ ws @ marker) ?body" using prefix_brace_free nbm by blast
  then obtain r' where r': "?body = (u @ ws @ marker) @ r'" by (auto simp: prefix_def)
  then have r: "r = r' @ ''}'' @ post" using eq by simp
  have e2: "?B @ marker @ b3 = (u @ ws) @ marker @ r'" using r' by simp
  have o1: "\<not> sublist marker (?B @ butlast marker)" using once(1) by simp
  from unique_occ[OF e2 o1 once(2)] have B: "?B = u @ ws" and b3: "b3 = r'" by blast+
  have "field_pass X ?s = a @ replacement @ b @ field_pass X r"
    unfolding field_pass_def q using sub_Some_h[OF hdr_not_Nil] m[unfolded q] by blast
  then have "field_pass X (pre @ ?s) =
      pre @ hdr X @ u @ replacement @ ws @ marker @ field_pass X (b3 @ ''}'' @ post)"
    using skip a b r b3 by simp
  then show ?thesis using B ws u(2,3) by (intro exI[of _ u] exI[of _ ws]) simp
qed

lemma sublist_right: "sublist h b \<Longrightarrow> sublist h (a @ b)"
  by (simp add: sublist_append)

lemma ident_not_brace: "ident_char c \<Longrightarrow> not_brace c"
  by (auto simp: ident_char_def is_letter_def is_digit_def not_brace_def Let_def)

lemma idents_not_brace: "list_all ident_char w \<Longrightarrow> list_all not_brace w"
  by (induction w) (simp_all add: ident_not_brace)

lemma ident_start_char: "ident_start c \<Longrightarrow> ident_char c"
  by (auto simp: ident_start_def ident_char_def)

lemma inserted_no_brace:
  "CHR ''}'' \<notin> set replacement" "CHR ''}'' \<notin> set org_relation"
  "CHR ''}'' \<notin> set index_replacement" "CHR ''}'' \<notin> set marker"
  by (simp_all add: replacement_def org_relation_def index_replacement_def marker_def)

lemma relation_match_shape:
  assumes "bt (relation_pattern X) s = Some (a, b, r)"
  shows "\<exists>x y z. a = hdr X @ x @ marker @ y @ ''createdBy'' @ z \<and> s = a @ b @ r \<and>
     CHR ''}'' \<notin> set (x @ y @ z) \<and> CHR ''}'' \<notin> set b"
proof -
  from relation_sound[OF assms] have a: "den (relation_group1 X) a"
    and b: "den relation_group2 b" and s: "s = a @ b @ r" by simp_all
  from a obtain x y z where a': "a = hdr X @ x @ marker @ y @ ''createdBy'' @ z"
    and n: "list_all not_brace x" "list_all not_brace y" "list_all not_brace z"
    unfolding den_relation_group1 by blast
  from b obtain w1 i n w2 c where b': "b = w1 @ (i # n) @ w2 @ c @ ''[]''"
    and m: "list_all is_space w1" "ident_start i" "list_all ident_char n"
      "list_all is_space w2" "list_all not_brace c"
    unfolding den_relation_group2 by blast
  have "list_all not_brace b"
    using b' m spaces_not_brace idents_not_brace ident_not_brace ident_start_char
    by (simp add: not_brace_def)
  then have nb: "CHR ''}'' \<notin> set b" by (simp add: not_brace_set)
  have "CHR ''}'' \<notin> set (x @ y @ z)" using n by (simp add: not_brace_set)
  then show ?thesis using a' s nb by blast
qed

lemma no_header_pass:
  assumes "\<not> sublist (hdr X) s"
  shows "field_pass X s = s" "relation_pass X s = s" "index_pass X s = s"
  using assms
  by (simp_all add: field_pass_def relation_pass_def index_pass_def model_pattern_def
      relation_pattern_def index_pattern_def sub_no_header)

text \<open>
  The three passes on the first block of a model that holds the anchor field, the
  relations marker once, the word \<^verbatim>\<open>createdBy\<close> behind it and a list-typed field
  behind that: the result is the document with the three texts put in, each once,
  and nothing else changed. The relation text stands behind a text that ends with
  \<^verbatim>\<open>createdBy\<close> and brace-free text.
\<close>

lemma three_insertions:
  assumes X: "name_ok X"
    and first: "\<not> sublist (hdr X) (pre @ butlast (hdr X))"
    and b3: "b3 = c2 @ ''createdBy'' @ c3 @ ws3 @ (i # n) @ ws4 @ c5 @ ''[]'' @ b6"
    and inner: "\<not> sublist (hdr X)
        (b1 @ ''createdById'' @ ws1 @ ''String'' @ b2 @ ws2 @ marker @ b3)"
    and after: "\<not> sublist (hdr X) post"
    and nb: "CHR ''}'' \<notin> set (b1 @ b2 @ c2 @ c3 @ c5 @ b6)"
    and ws1: "ws1 \<noteq> []" "list_all is_space ws1"
    and ws2: "ws2 \<noteq> []" "list_all is_space ws2"
    and ws3: "ws3 \<noteq> []" "list_all is_space ws3"
    and ws4: "ws4 \<noteq> []" "list_all is_space ws4"
    and ident: "ident_start i" "list_all ident_char n"
    and once: "\<not> sublist marker
        (b1 @ ''createdById'' @ ws1 @ ''String'' @ b2 @ ws2 @ butlast marker)"
      "\<not> sublist marker (tl marker @ b3)"
  shows "\<exists>u ws e t. b1 @ ''createdById'' @ ws1 @ ''String'' @ b2 @ ws2 = u @ ws \<and>
     ws \<noteq> [] \<and> list_all is_space ws \<and>
     u @ replacement @ ws @ marker @ b3 = e @ t \<and>
     (\<exists>x y z. e = x @ marker @ y @ ''createdBy'' @ z) \<and>
     add_organization_id_to_model
       (pre @ hdr X @ b1 @ ''createdById'' @ ws1 @ ''String'' @ b2 @ ws2 @ marker @ b3 @
        ''}'' @ post) X =
     pre @ hdr X @ e @ org_relation @ t @ index_replacement @ ''}'' @ post"
proof -
  let ?B = "b1 @ ''createdById'' @ ws1 @ ''String'' @ b2 @ ws2"
  let ?doc = "pre @ hdr X @ b1 @ ''createdById'' @ ws1 @ ''String'' @ b2 @ ws2 @ marker @ b3 @
        ''}'' @ post"
  have nbi: "list_all not_brace (i # n)"
    using ident ident_not_brace ident_start_char idents_not_brace by simp
  have nb3: "CHR ''}'' \<notin> set b3"
    using nb b3 spaces_not_brace[OF ws3(2)] spaces_not_brace[OF ws4(2)] nbi
    by (auto simp: not_brace_set not_brace_def)
  have nbB: "CHR ''}'' \<notin> set ?B"
    using nb spaces_not_brace[OF ws1(2)] spaces_not_brace[OF ws2(2)]
    by (simp add: not_brace_set)
  have nb123: "CHR ''}'' \<notin> set (b1 @ b2 @ b3)" using nb nb3 by simp
  txt \<open>The field pass.\<close>
  from field_block[OF X first nb123 ws1 ws2 once, of post] obtain u ws where
    B: "?B = u @ ws" and ws: "ws \<noteq> []" "list_all is_space ws"
    and f: "field_pass X ?doc =
      pre @ hdr X @ u @ replacement @ ws @ marker @ field_pass X (b3 @ ''}'' @ post)"
    by blast
  have "?B @ marker @ b3 = (?B @ marker) @ b3" by simp
  then have h3: "\<not> sublist (hdr X) b3"
    using inner sublist_right[of "hdr X" b3 "?B @ marker"] by auto
  have "field_pass X (b3 @ CHR ''}'' # post) = b3 @ CHR ''}'' # post"
    using field_brace[OF X, of b3 post] no_header_pass(1)[OF h3] no_header_pass(1)[OF after]
    by simp
  then have f1: "field_pass X ?doc =
      pre @ hdr X @ (u @ replacement @ ws @ marker @ b3) @ ''}'' @ post"
    using f by simp
  let ?body1 = "u @ replacement @ ws @ marker @ b3"
  have nbu: "CHR ''}'' \<notin> set (u @ ws)" using nbB[unfolded B] .
  have nb1: "CHR ''}'' \<notin> set ?body1" using nbu nb3 inserted_no_brace by simp
  have "\<not> sublist (hdr X) (u @ (ws @ marker @ b3))" using inner B by (metis append.assoc)
  then have h1: "\<not> sublist (hdr X) ?body1" using field_line_no_header[OF X] by blast
  txt \<open>The relation pass.\<close>
  obtain q where q: "relation_pattern X = lits (hdr X) @ q" using relation_pattern_hdr by blast
  let ?s = "hdr X @ ?body1 @ ''}'' @ post"
  have skip: "relation_pass X (pre @ ?s) = pre @ relation_pass X ?s"
    unfolding relation_pass_def q using sub_skip[OF hdr_not_Nil first] by simp
  have "list_all not_brace (u @ replacement @ ws)"
    using nbu inserted_no_brace(1) by (simp add: not_brace_set)
  moreover have "list_all not_brace c2" "list_all not_brace c3" "list_all not_brace c5"
    using nb by (simp_all add: not_brace_set)
  ultimately have d1: "den (relation_group1 X)
      (hdr X @ (u @ replacement @ ws) @ marker @ c2 @ ''createdBy'' @ c3)"
    and d2: "den (Mark # relation_group2) (ws3 @ (i # n) @ ws4 @ c5 @ ''[]'')"
    unfolding den.simps den_relation_group1 den_relation_group2
    using ws3 ws4 ident by blast+
  have "den (relation_pattern X)
      ((hdr X @ (u @ replacement @ ws) @ marker @ c2 @ ''createdBy'' @ c3) @
       (ws3 @ (i # n) @ ws4 @ c5 @ ''[]''))"
    unfolding relation_pattern_groups den_append[OF no_Mark(3)] using d1 d2 by blast
  then have "bt (relation_pattern X)
      (((hdr X @ (u @ replacement @ ws) @ marker @ c2 @ ''createdBy'' @ c3) @
       (ws3 @ (i # n) @ ws4 @ c5 @ ''[]'')) @ (b6 @ ''}'' @ post)) \<noteq> None"
    by (rule bt_complete)
  then have "bt (relation_pattern X) ?s \<noteq> None" using b3 by simp
  then obtain a b r where m: "bt (relation_pattern X) ?s = Some (a, b, r)" by auto
  from relation_match_shape[OF m] obtain x y z where
    a: "a = hdr X @ x @ marker @ y @ ''createdBy'' @ z" and s: "?s = a @ b @ r"
    and nbe: "CHR ''}'' \<notin> set (x @ y @ z)" and nbb: "CHR ''}'' \<notin> set b" by blast
  let ?e = "x @ marker @ y @ ''createdBy'' @ z"
  have eq: "?body1 @ CHR ''}'' # post = (?e @ b) @ r" using s a by simp
  have nbeb: "CHR ''}'' \<notin> set (?e @ b)" using nbe nbb inserted_no_brace(4) by simp
  have "prefix (?e @ b) (?body1 @ CHR ''}'' # post)" using eq by (simp add: prefix_def)
  then have "prefix (?e @ b) ?body1" using prefix_brace_free nbeb by blast
  then obtain r' where r': "?body1 = (?e @ b) @ r'" by (auto simp: prefix_def)
  then have r: "r = r' @ ''}'' @ post" using eq by simp
  have "\<not> sublist (hdr X) r'" using h1 r' by (metis sublist_append)
  then have rr: "relation_pass X (r' @ CHR ''}'' # post) = r' @ CHR ''}'' # post"
    using relation_brace[OF X, of r' post] no_header_pass(2) after by simp
  have "relation_pass X ?s = a @ org_relation @ b @ relation_pass X r"
    unfolding relation_pass_def q using sub_Some_h[OF hdr_not_Nil] m[unfolded q] by blast
  then have r2: "relation_pass X (pre @ ?s) =
      pre @ hdr X @ (?e @ org_relation @ b @ r') @ CHR ''}'' # post"
    using skip a r rr by simp
  txt \<open>The index pass.\<close>
  have nbr': "CHR ''}'' \<notin> set r'" using nb1 r' by (metis Un_iff set_append)
  have nb2: "CHR ''}'' \<notin> set (?e @ org_relation @ b @ r')"
    using nbeb nbr' inserted_no_brace(2) by simp
  have "\<not> sublist (hdr X) pre" using first by (auto simp: sublist_append)
  then have ip: "index_pass X pre = pre" "index_pass X post = post"
    using no_header_pass(3) after by blast+
  have "add_organization_id_to_model ?doc X =
      index_pass X (pre @ hdr X @ (?e @ org_relation @ b @ r') @ CHR ''}'' # post)"
    unfolding add_organization_id_to_model_def using f1 r2 by simp
  also have "\<dots> = pre @ hdr X @ (?e @ org_relation @ b @ r') @ index_replacement @
      CHR ''}'' # post"
    using index_block[OF X nb2, of pre post] ip by simp
  finally have res: "add_organization_id_to_model ?doc X =
      pre @ hdr X @ ?e @ org_relation @ (b @ r') @ index_replacement @ ''}'' @ post"
    by simp
  have split: "?body1 = ?e @ (b @ r')" using r' by simp
  have ex: "\<exists>x' y' z'. ?e = x' @ marker @ y' @ ''createdBy'' @ z'" by blast
  have c: "?B = u @ ws \<and> ws \<noteq> [] \<and> list_all is_space ws \<and>
     u @ replacement @ ws @ marker @ b3 = ?e @ (b @ r') \<and>
     (\<exists>x' y' z'. ?e = x' @ marker @ y' @ ''createdBy'' @ z') \<and>
     add_organization_id_to_model ?doc X =
     pre @ hdr X @ ?e @ org_relation @ (b @ r') @ index_replacement @ ''}'' @ post"
    using B ws split res ex by (intro conjI)
  show ?thesis
    by (rule exI[of _ u], rule exI[of _ ws], rule exI[of _ ?e], rule exI[of _ "b @ r'"])
      (rule c)
qed

section \<open>Properties of the rewrite\<close>

text \<open>
  C4: when the text \<^verbatim>\<open>model X {\<close> occurs nowhere in the document, the three passes
  for \<open>X\<close> match nothing and the document comes back as it was.
\<close>

theorem absent_model_unchanged:
  assumes "name_ok X" and "\<not> sublist (hdr X) content"
  shows "add_organization_id_to_model content X = content"
  using assms(2) by (rule add_no_header)

theorem absent_model_unchanged_witness:
  "name_ok ''Task'' \<and> \<not> sublist (hdr ''Task'') ''model User {}'' \<and>
   add_organization_id_to_model ''model User {}'' ''Task'' = ''model User {}''"
proof -
  have 1: "name_ok ''Task''" by code_simp
  have 2: "\<not> sublist (hdr ''Task'') ''model User {}''" by code_simp
  show ?thesis using 1 2 absent_model_unchanged[OF 1 2] by simp
qed

text \<open>
  C10: the rewrite only inserts. For a model name that is an identifier, the result is
  at least as long as the input, and the input is what is left of the result when the
  inserted characters are taken out (the input is a subsequence of the result).
\<close>

theorem rewrite_only_inserts:
  assumes "name_ok X"
  shows "length content \<le> length (add_organization_id_to_model content X) \<and>
         subseq content (add_organization_id_to_model content X)"
proof -
  have "subseq content (field_pass X content)"
    by (simp add: field_pass_def sub_subseq)
  also have "subseq (field_pass X content) (relation_pass X (field_pass X content))"
    by (simp add: relation_pass_def sub_subseq)
  also have "subseq (relation_pass X (field_pass X content))
      (index_pass X (relation_pass X (field_pass X content)))"
    by (simp add: index_pass_def sub_subseq)
  finally have "subseq content (add_organization_id_to_model content X)"
    by (simp add: add_organization_id_to_model_def)
  then show ?thesis by (simp add: list_emb_length)
qed

theorem rewrite_only_inserts_witness:
  "name_ok ''Task'' \<and>
   length ''model Task {}'' \<le> length (add_organization_id_to_model ''model Task {}'' ''Task'') \<and>
   subseq ''model Task {}'' (add_organization_id_to_model ''model Task {}'' ''Task'') \<and>
   add_organization_id_to_model ''model Task {}'' ''Task'' \<noteq> ''model Task {}''"
proof -
  have 1: "name_ok ''Task''" by code_simp
  have 2: "add_organization_id_to_model ''model Task {}'' ''Task'' \<noteq> ''model Task {}''"
    by code_simp
  show ?thesis using 1 2 rewrite_only_inserts[OF 1, of "''model Task {}''"] by simp
qed

text \<open>
  C3: the driver's rewrite is not idempotent. On the document \<^verbatim>\<open>model Task {}\<close> the
  second run inserts the index annotation a second time.
\<close>

theorem rewrite_all_not_idempotent:
  "\<exists>d. rewrite_all (rewrite_all d) \<noteq> rewrite_all d"
proof
  let ?d = "''model Task {}''"
  let ?d1 = "''model Task {'' @ index_replacement @ ''}''"
  let ?d2 = "''model Task {'' @ index_replacement @ index_replacement @ ''}''"
  have a: "add_organization_id_to_model ?d ''Task'' = ?d1" by code_simp
  have b: "add_organization_id_to_model ?d1 ''Task'' = ?d2" by code_simp
  have p: "prefix (hdr ''Task'') ?d" "prefix (hdr ''Task'') ?d1" "prefix (hdr ''Task'') ?d2"
    by code_simp+
  have m: "\<not> sublist ''mo'' (tl ?d)" "\<not> sublist ''mo'' (tl ?d1)" "\<not> sublist ''mo'' (tl ?d2)"
    by code_simp+
  have 1: "rewrite_all ?d = ?d1" using rewrite_all_only_task[of ?d] a p m by simp
  have 2: "rewrite_all ?d1 = ?d2" using rewrite_all_only_task[of ?d1] b p m by simp
  have "?d2 \<noteq> ?d1" by (simp add: index_replacement_def)
  then show "rewrite_all (rewrite_all ?d) \<noteq> rewrite_all ?d" using 1 2 by simp
qed



text \<open>
  C7: the file is written once, by the last step. In every state of a run that has not
  completed the write (the program is still reading or rewriting, or it has failed)
  the file on disk is what it was at the start and nothing has been written; when the
  run has finished, one write has happened and the file holds the rewrite of its old
  content.
\<close>

theorem file_written_once_at_the_end:
  "writes (world (run k (init w))) \<le> Suc (writes w) \<and>
   (pc (run k (init w)) \<noteq> Finished \<longrightarrow>
      disk (world (run k (init w))) = disk w \<and> writes (world (run k (init w))) = writes w) \<and>
   (pc (run k (init w)) = Finished \<longrightarrow>
      writes (world (run k (init w))) = Suc (writes w) \<and>
      (\<exists>c. disk w = Some c \<and> disk (world (run k (init w))) = Some (rewrite_all c)))"
  using main_inv_run[OF main_inv_init, of w k]
  by (cases "pc (run k (init w))") (auto simp: main_inv_def)

theorem file_written_once_at_the_end_witness:
  "pc (run 3 (init world0)) \<noteq> Finished \<and>
   disk (world (run 3 (init world0))) = disk world0 \<and>
   writes (world (run 3 (init world0))) = writes world0 \<and>
   pc (run 22 (init world0)) = Finished \<and>
   writes (world (run 22 (init world0))) = Suc (writes world0)"
proof -
  have 1: "pc (run 3 (init world0)) \<noteq> Finished" by code_simp
  have 2: "pc (run 22 (init world0)) = Finished" by code_simp
  show ?thesis
    using 1 2 file_written_once_at_the_end[of 3 world0]
      file_written_once_at_the_end[of 22 world0]
    by simp
qed

text \<open>
  C5: the driver on the minimal document. The block comes back with, in this order, its
  fields, the new \<^verbatim>\<open>organizationId\<close> field, the relations marker, the new
  \<^verbatim>\<open>organization\<close> relation (before the list-typed field), the list-typed field and
  the index annotation right before the closing brace. The relation text is put right
  behind the word \<^verbatim>\<open>createdBy\<close>, where group 2 of the relation pattern starts.
\<close>

theorem end_to_end: "rewrite_all fixture =
     fixture_fields @ replacement @ fixture_marker @ org_relation @ fixture_list @
     index_replacement @ ''}'' @ [CHR 0x0A]"
proof -
  have a: "add_organization_id_to_model fixture ''Task'' = expected" by code_simp
  have "prefix (hdr ''Task'') fixture" by code_simp
  moreover have "\<not> sublist ''mo'' (tl fixture)" by code_simp
  moreover have "prefix (hdr ''Task'') expected" by code_simp
  moreover have "\<not> sublist ''mo'' (tl expected)" by code_simp
  ultimately show ?thesis
    using rewrite_all_only_task[of fixture] a by (simp add: expected_def)
qed

text \<open>
  C9: the index pass needs no anchor. In every document with the text \<^verbatim>\<open>model X {\<close>,
  a body without closing brace and a closing brace, the index pass puts the annotation
  before that brace and leaves the block as it is otherwise; the whole rewrite puts the
  annotation before that brace too, whatever the first two passes do; and when the
  text before the brace has no \<^verbatim>\<open>createdBy\<close> or no relations marker, the first two passes
  change nothing there and the block comes back with the annotation alone.
\<close>

theorem index_needs_no_anchor:
  assumes X: "name_ok X" and body: "CHR ''}'' \<notin> set body"
  shows "index_pass X (pre @ hdr X @ body @ ''}'' @ post) =
           index_pass X pre @ hdr X @ body @ index_replacement @ ''}'' @ index_pass X post \<and>
         (\<exists>pre' body'.
            add_organization_id_to_model (pre @ hdr X @ body @ ''}'' @ post) X =
              pre' @ hdr X @ body' @ index_replacement @ ''}'' @
              add_organization_id_to_model post X \<and>
            CHR ''}'' \<notin> set body') \<and>
         (\<not> sublist ''createdBy'' (pre @ hdr X @ body) \<or>
          \<not> sublist marker (pre @ hdr X @ body) \<longrightarrow>
            add_organization_id_to_model (pre @ hdr X @ body @ ''}'' @ post) X =
              index_pass X pre @ hdr X @ body @ index_replacement @ ''}'' @
              add_organization_id_to_model post X)"
proof (intro conjI impI)
  show "index_pass X (pre @ hdr X @ body @ ''}'' @ post) =
      index_pass X pre @ hdr X @ body @ index_replacement @ ''}'' @ index_pass X post"
    using index_block[OF X body, of pre post] by simp
next
  from last_brace[of "pre @ hdr X @ body"] obtain P g where
    Pg: "pre @ hdr X @ body = P @ g" and P: "P = [] \<or> last P = CHR ''}''"
    and g: "CHR ''}'' \<notin> set g" by blast
  have "CHR ''}'' \<notin> set (hdr X @ body)" using body hdr_no_brace[OF X] by simp
  from brace_free_tail[OF Pg P this] obtain us where "g = us @ hdr X @ body" by blast
  then have h: "sublist (hdr X) g" unfolding sublist_def by blast
  let ?s2 = "relation_pass X (field_pass X g)"
  have nb: "CHR ''}'' \<notin> set ?s2" using g field_no_brace relation_no_brace by blast
  have "sublist (hdr X) ?s2" using h field_survives relation_survives by blast
  then obtain x1 y1 where s2: "?s2 = x1 @ hdr X @ y1" by (auto simp: sublist_def)
  then have y1: "CHR ''}'' \<notin> set y1" using nb by (metis Un_iff set_append)
  have "add_organization_id_to_model (pre @ hdr X @ body @ ''}'' @ post) X =
      add_organization_id_to_model (P @ g @ CHR ''}'' # post) X"
    using Pg by (metis append.assoc append_Cons append_Nil)
  also have "\<dots> = add_organization_id_to_model P X @ ?s2 @ index_replacement @
      CHR ''}'' # add_organization_id_to_model post X"
    by (rule add_stretch[OF X P g h])
  finally have "add_organization_id_to_model (pre @ hdr X @ body @ ''}'' @ post) X =
      (add_organization_id_to_model P X @ x1) @ hdr X @ y1 @ index_replacement @ ''}'' @
      add_organization_id_to_model post X"
    using s2 by simp
  then show "\<exists>pre' body'.
      add_organization_id_to_model (pre @ hdr X @ body @ ''}'' @ post) X =
        pre' @ hdr X @ body' @ index_replacement @ ''}'' @ add_organization_id_to_model post X \<and>
      CHR ''}'' \<notin> set body'"
    using y1 by blast
next
  assume na: "\<not> sublist ''createdBy'' (pre @ hdr X @ body) \<or>
      \<not> sublist marker (pre @ hdr X @ body)"
  let ?A = "pre @ hdr X @ body"
  have f: "field_pass X (?A @ CHR ''}'' # post) = ?A @ CHR ''}'' # field_pass X post"
    using field_brace[OF X, of ?A post] field_no_anchor[OF na] by simp
  have r: "relation_pass X (?A @ CHR ''}'' # field_pass X post) =
      ?A @ CHR ''}'' # relation_pass X (field_pass X post)"
    using relation_brace[OF X, of ?A] relation_no_anchor[OF na] by simp
  show "add_organization_id_to_model (pre @ hdr X @ body @ ''}'' @ post) X =
      index_pass X pre @ hdr X @ body @ index_replacement @ ''}'' @
      add_organization_id_to_model post X"
    using f r index_block[OF X body, of pre "relation_pass X (field_pass X post)"]
    by (simp add: add_organization_id_to_model_def)
qed

theorem index_needs_no_anchor_witness:
  "name_ok ''Task'' \<and> CHR ''}'' \<notin> set ''  id Int'' \<and>
   \<not> sublist ''createdBy'' (hdr ''Task'' @ ''  id Int'') \<and>
   index_pass ''Task'' (hdr ''Task'' @ ''  id Int'' @ ''}'') =
     hdr ''Task'' @ ''  id Int'' @ index_replacement @ ''}'' \<and>
   add_organization_id_to_model (hdr ''Task'' @ ''  id Int'' @ ''}'') ''Task'' =
     hdr ''Task'' @ ''  id Int'' @ index_replacement @ ''}''"
proof -
  have 1: "name_ok ''Task''" by code_simp
  have 2: "CHR ''}'' \<notin> set ''  id Int''" by simp
  have 3: "\<not> sublist ''createdBy'' (hdr ''Task'' @ ''  id Int'')" by code_simp
  show ?thesis
    using 1 2 3 index_needs_no_anchor[OF 1 2, of "[]" "[]"] by simp
qed

text \<open>
  C2, as the code has it: a block without the anchors is not returned unchanged. Take a
  stretch of the document between two closing braces (or from the start) that holds the
  header \<^verbatim>\<open>model X {\<close> and has no \<^verbatim>\<open>createdBy\<close> or no relations marker. The field pass
  and the relation pass insert nothing into it, and the index pass still puts the
  annotation before its closing brace.
\<close>

theorem anchorless_block_gets_index_only:
  assumes X: "name_ok X" and P: "P = [] \<or> last P = CHR ''}''"
    and nb: "CHR ''}'' \<notin> set (gap @ body)"
    and na: "\<not> sublist ''createdBy'' (gap @ hdr X @ body) \<or>
             \<not> sublist marker (gap @ hdr X @ body)"
  shows "field_pass X (P @ gap @ hdr X @ body @ ''}'' @ post) =
           field_pass X P @ gap @ hdr X @ body @ ''}'' @ field_pass X post \<and>
         relation_pass X (P @ gap @ hdr X @ body @ ''}'' @ post) =
           relation_pass X P @ gap @ hdr X @ body @ ''}'' @ relation_pass X post \<and>
         add_organization_id_to_model (P @ gap @ hdr X @ body @ ''}'' @ post) X =
           add_organization_id_to_model P X @ gap @ hdr X @ body @ index_replacement @ ''}'' @
           add_organization_id_to_model post X"
proof -
  let ?seg = "gap @ hdr X @ body"
  have seg: "CHR ''}'' \<notin> set ?seg" using nb hdr_no_brace[OF X] by simp
  have h: "sublist (hdr X) ?seg" unfolding sublist_def by blast
  have f: "field_pass X ?seg = ?seg" by (rule field_no_anchor[OF na])
  have r: "relation_pass X ?seg = ?seg" by (rule relation_no_anchor[OF na])
  show ?thesis
    using field_stretch[OF X P, of ?seg post] relation_stretch[OF X P, of ?seg post]
      add_stretch[OF X P seg h, of post] f r
    by simp
qed

theorem anchorless_block_gets_index_only_witness:
  "name_ok ''Task'' \<and> last ''}'' = CHR ''}'' \<and> CHR ''}'' \<notin> set ('' '' @ ''  id Int'') \<and>
   \<not> sublist marker ('' '' @ hdr ''Task'' @ ''  id Int'') \<and>
   field_pass ''Task'' (''}'' @ '' '' @ hdr ''Task'' @ ''  id Int'' @ ''}'') =
     ''}'' @ '' '' @ hdr ''Task'' @ ''  id Int'' @ ''}'' \<and>
   relation_pass ''Task'' (''}'' @ '' '' @ hdr ''Task'' @ ''  id Int'' @ ''}'') =
     ''}'' @ '' '' @ hdr ''Task'' @ ''  id Int'' @ ''}'' \<and>
   add_organization_id_to_model (''}'' @ '' '' @ hdr ''Task'' @ ''  id Int'' @ ''}'') ''Task'' =
     ''}'' @ '' '' @ hdr ''Task'' @ ''  id Int'' @ index_replacement @ ''}''"
proof -
  have 1: "name_ok ''Task''" by code_simp
  have 2: "''}'' = [] \<or> last ''}'' = CHR ''}''" by simp
  have 3: "CHR ''}'' \<notin> set ('' '' @ ''  id Int'')" by simp
  have 4: "\<not> sublist marker ('' '' @ hdr ''Task'' @ ''  id Int'')" by code_simp
  then have 5: "\<not> sublist ''createdBy'' ('' '' @ hdr ''Task'' @ ''  id Int'') \<or>
      \<not> sublist marker ('' '' @ hdr ''Task'' @ ''  id Int'')" by simp
  have 6: "field_pass ''Task'' ''}'' = ''}''" "relation_pass ''Task'' ''}'' = ''}''"
    "add_organization_id_to_model ''}'' ''Task'' = ''}''"
    by code_simp+
  show ?thesis
    using 1 3 4 6 anchorless_block_gets_index_only[OF 1 2 3 5, of "[]"] by simp
qed

text \<open>
  The claim C2 as it was stated fails on the block \<^verbatim>\<open>model Task {}\<close>, which has none of
  the anchors and is changed all the same.
\<close>

theorem anchorless_block_changed:
  "name_ok ''Task'' \<and> sublist (hdr ''Task'') ''model Task {}'' \<and>
   \<not> sublist marker ''model Task {}'' \<and> \<not> sublist ''createdBy'' ''model Task {}'' \<and>
   add_organization_id_to_model ''model Task {}'' ''Task'' \<noteq> ''model Task {}''"
  by code_simp

text \<open>
  C6: the field pass on the first block of a model \<open>X\<close> whose body, up to its closing
  brace, holds \<^verbatim>\<open>createdById\<close>, blank space, \<^verbatim>\<open>String\<close> and later, behind blank
  space, the relations marker once. The new \<^verbatim>\<open>organizationId\<close> line is put in front
  of the marker: behind the last character before the marker that is not blank, so
  that only the blank space \<open>ws\<close> stands between the new line and the marker. The
  rest of the block is unchanged.
\<close>

theorem field_before_marker:
  assumes X: "name_ok X"
    and first: "\<not> sublist (hdr X) (pre @ butlast (hdr X))"
    and nb: "CHR ''}'' \<notin> set (b1 @ b2 @ b3)"
    and ws1: "ws1 \<noteq> []" "list_all is_space ws1"
    and ws2: "ws2 \<noteq> []" "list_all is_space ws2"
    and once: "\<not> sublist marker (b1 @ ''createdById'' @ ws1 @ ''String'' @ b2 @ ws2 @ butlast marker)"
      "\<not> sublist marker (tl marker @ b3)"
  shows "\<exists>u ws. b1 @ ''createdById'' @ ws1 @ ''String'' @ b2 @ ws2 = u @ ws \<and>
     ws \<noteq> [] \<and> list_all is_space ws \<and> u \<noteq> [] \<and> \<not> is_space (last u) \<and>
     field_pass X (pre @ hdr X @ b1 @ ''createdById'' @ ws1 @ ''String'' @ b2 @ ws2 @ marker @ b3 @ ''}'' @ post) =
     pre @ hdr X @ u @ replacement @ ws @ marker @ b3 @ ''}'' @ field_pass X post"
proof -
  have "\<not> sublist marker b3" using once(2) sublist_right by blast
  then have "field_pass X b3 = b3" by (simp add: field_no_anchor)
  then have "field_pass X (b3 @ ''}'' @ post) = b3 @ ''}'' @ field_pass X post"
    using field_brace[OF X, of b3 post] by simp
  then show ?thesis using field_block[OF X first nb ws1 ws2 once, of post] by simp
qed

theorem field_before_marker_witness:
  "name_ok ''Task'' \<and>
   \<not> sublist (hdr ''Task'') (''// schema '' @ butlast (hdr ''Task'')) \<and>
   CHR ''}'' \<notin> set (''  id String  '' @ '' @db.Uuid'' @ ''  createdBy User'') \<and>
   list_all is_space ''  '' \<and>
   \<not> sublist marker (''  id String  '' @ ''createdById'' @ '' '' @ ''String'' @ '' @db.Uuid'' @
      ''  '' @ butlast marker) \<and>
   \<not> sublist marker (tl marker @ ''  createdBy User'') \<and>
   (\<exists>u ws. ''  id String  '' @ ''createdById'' @ '' '' @ ''String'' @ '' @db.Uuid'' @ ''  '' = u @ ws \<and>
     ws \<noteq> [] \<and> list_all is_space ws \<and> u \<noteq> [] \<and> \<not> is_space (last u) \<and>
     field_pass ''Task'' (''// schema '' @ hdr ''Task'' @ ''  id String  '' @ ''createdById'' @ '' '' @
       ''String'' @ '' @db.Uuid'' @ ''  '' @ marker @ ''  createdBy User'' @ ''}'' @ '' model U {}'') =
     ''// schema '' @ hdr ''Task'' @ u @ replacement @ ws @ marker @ ''  createdBy User'' @ ''}'' @
       field_pass ''Task'' '' model U {}'')"
proof -
  have 1: "name_ok ''Task''" by code_simp
  have 2: "\<not> sublist (hdr ''Task'') (''// schema '' @ butlast (hdr ''Task''))" by code_simp
  have 3: "CHR ''}'' \<notin> set (''  id String  '' @ '' @db.Uuid'' @ ''  createdBy User'')" by simp
  have 4: "'' '' \<noteq> []" "list_all is_space '' ''" by (simp_all add: is_space_def)
  have 5: "''  '' \<noteq> []" "list_all is_space ''  ''" by (simp_all add: is_space_def)
  have 6: "\<not> sublist marker (''  id String  '' @ ''createdById'' @ '' '' @ ''String'' @
      '' @db.Uuid'' @ ''  '' @ butlast marker)" by code_simp
  have 7: "\<not> sublist marker (tl marker @ ''  createdBy User'')" by code_simp
  show ?thesis
    using field_before_marker[OF 1 2 3 4 5 6 7, of "'' model U {}''"] 1 2 3 5(2) 6 7
    by (intro conjI)
qed

text \<open>
  C1: the rewrite for \<^verbatim>\<open>Task\<close> on the minimal document, line by line. The
  \<^verbatim>\<open>organizationId\<close> line is a line of its own. The relation text is put right behind
  the word \<^verbatim>\<open>createdBy\<close>: the line of the \<^verbatim>\<open>createdBy\<close> relation is cut behind its
  name, and the new relation shares its line with the type and the attribute of
  \<^verbatim>\<open>createdBy\<close>. The index annotation shares its line with the closing brace.
\<close>

theorem createdBy_line_split:
  "add_organization_id_to_model fixture ''Task'' =
     ''model Task {'' @ [CHR 0x0A] @
     ''  id String'' @ [CHR 0x0A] @
     ''  createdById String'' @ [CHR 0x0A] @
     ''  organizationId  String?   // Made optional for safe migration'' @ [CHR 0x0A] @
     [CHR 0x0A] @
     ''  // Relations'' @ [CHR 0x0A] @
     ''  createdBy'' @ [CHR 0x0A] @
     ''  organization    Organization? @relation(fields: [organizationId], references: [id]) User @relation(fields: [createdById], references: [id])'' @ [CHR 0x0A] @
     ''  items Item[]'' @ [CHR 0x0A] @
     [CHR 0x0A] @
     [CHR 0x0A] @
     ''  @@index([organizationId])}'' @ [CHR 0x0A]"
  by code_simp

end
